theory Spec2Isabelle
  imports Main "HOL-Library.AList" "HOL-Library.Multiset"
begin

section \<open>The Kubernetes import of cdk8s-cli: \<open>lib/import/k8s.ts\<close>\<close>

subsection \<open>Data model\<close>

text \<open>
  \<open>interface GroupVersionKind { group; kind; version }\<close>: the three strings of one entry of
  the vendor extension, in the order group, kind, version.
\<close>

datatype GroupVersionKind = GroupVersionKind string string string

text \<open>
  \<open>JSONSchema4\<close>, restricted to the three members the module reads: the vendor extension
  \<open>def['x-kubernetes-group-version-kind']\<close> (cast to \<open>GroupVersionKind[]\<close>, absent =
  \<open>None\<close>), \<open>def.properties\<close> and \<open>schema.definitions\<close>. An object of the document is the
  list of its entries in the order \<open>Object.entries\<close> yields them. Every member value is itself
  a schema object, hence truthy.
\<close>

datatype JSONSchema4 = JSONSchema4
  (x_kubernetes_group_version_kind: "GroupVersionKind list option")
  (properties: "(string \<times> JSONSchema4) list option")
  (definitions: "(string \<times> JSONSchema4) list option")

text \<open>
  Modelled from the spec: the interface \<open>ApiObjectName\<close> is declared in \<open>./k8s-util\<close>, which
  is not part of the sources. The spec (ApiTypeName) gives it the fields \<open>basename\<close>,
  \<open>group\<close>, \<open>version\<close> (the raw version string) and \<open>fullname\<close>. This module reads
  \<open>basename\<close> and \<open>fullname\<close> only.
\<close>

record ApiObjectName =
  fullname :: string
  basename :: string
  group :: string
  version :: string

text \<open>\<open>interface ApiObjectDefinition extends ApiObjectName { schema: JSONSchema4 }\<close>\<close>

record ApiObjectDefinition = ApiObjectName +
  schema :: JSONSchema4

text \<open>
  \<open>type ApiObjectDefinitions = { [basename: string]: ApiObjectDefinition[] }\<close>: the own
  properties of the object in the order of their creation.
\<close>

type_synonym ApiObjectDefinitions = "(string \<times> ApiObjectDefinition list) list"

text \<open>\<open>interface SelectApiObjectsOptions { include?: string[] }\<close>\<close>

record SelectApiObjectsOptions =
  include_list :: "string list option"

text \<open>\<open>interface ImportKubernetesApiOptions\<close>; \<open>argv\<close> carries the two optional lists.\<close>

record ImportKubernetesApiOptions =
  apiVersion :: string
  include_types :: "string list option"
  exclude_types :: "string list option"

record Argv =
  argv_include :: "string list option"
  argv_exclude :: "string list option"

text \<open>What a \<open>throw\<close> carries: the class of the error and its message.\<close>

datatype error = Error string | TypeError string

subsection \<open>Constants\<close>

definition DEFAULT_API_VERSION :: string where
  "DEFAULT_API_VERSION = ''1.15.0''"

definition X_GROUP_VERSION_KIND :: string where
  "X_GROUP_VERSION_KIND = ''x-kubernetes-group-version-kind''"

subsection \<open>\<open>ImportKubernetesApi.match\<close>\<close>

text \<open>\<open>String.prototype.split\<close> with a one-character separator; never the empty list.\<close>

fun split :: "char \<Rightarrow> string \<Rightarrow> string list" where
  "split sep [] = [[]]"
| "split sep (c # cs) =
     (if c = sep then [] # split sep cs
      else (case split sep cs of [] \<Rightarrow> [[c]] | p # ps \<Rightarrow> (c # p) # ps))"

definition startsWith :: "string \<Rightarrow> string \<Rightarrow> bool" where
  "startsWith s p = (take (length p) s = p)"

text \<open>\<open>xs[i]\<close> of an array: \<open>undefined\<close> (here \<open>None\<close>) past the end.\<close>

definition at_index :: "'a list \<Rightarrow> nat \<Rightarrow> 'a option" where
  "at_index xs i = (if i < length xs then Some (xs ! i) else None)"

definition match :: "string \<Rightarrow> Argv \<Rightarrow> ImportKubernetesApiOptions option" where
  "match source argv =
     (if source \<noteq> ''k8s'' \<and> \<not> startsWith source ''k8s@'' then None
      else Some \<lparr>
        apiVersion = (case at_index (split CHR ''@'' source) 1 of
                        Some v \<Rightarrow> v | None \<Rightarrow> DEFAULT_API_VERSION),
        include_types = argv_include argv,
        exclude_types = argv_exclude argv \<rparr>)"

subsection \<open>The classifier\<close>

text \<open>
  \<open>tryGetObjectName\<close>: \<open>undefined\<close> when the extension is absent, when its list is empty
  (\<open>objectNames[0]\<close> is \<open>undefined\<close>), or when \<open>def.properties?.metadata\<close> is absent.
\<close>

definition tryGetObjectName :: "JSONSchema4 \<Rightarrow> GroupVersionKind option" where
  "tryGetObjectName d =
     (case x_kubernetes_group_version_kind d of
        None \<Rightarrow> None
      | Some objectNames \<Rightarrow>
          (case objectNames of
             [] \<Rightarrow> None
           | objectName # _ \<Rightarrow>
               (case properties d of
                  None \<Rightarrow> None
                | Some props \<Rightarrow>
                    (case map_of props ''metadata'' of
                       None \<Rightarrow> None
                     | Some _ \<Rightarrow> Some objectName))))"

definition getObjectName :: "ApiObjectDefinition \<Rightarrow> error + GroupVersionKind" where
  "getObjectName apiDefinition =
     (case tryGetObjectName (schema apiDefinition) of
        None \<Rightarrow> Inl (Error (''cannot determine API object name for '' @ fullname apiDefinition
                 @ ''. schema must include a '' @ X_GROUP_VERSION_KIND @ '' key''))
      | Some objectName \<Rightarrow> Inr objectName)"

subsection \<open>Objects used as dictionaries\<close>

text \<open>
  The order in which \<open>Object.values\<close> and \<open>Object.entries\<close> enumerate the own properties of
  an object: the keys that are array indices (canonical decimal numerals below \<open>2^32 - 1\<close>)
  first, in ascending numeric order, then every other key in the order of its creation.
\<close>

definition isDigit :: "char \<Rightarrow> bool" where
  "isDigit c = (c \<in> set ''0123456789'')"

definition digitValue :: "char \<Rightarrow> nat" where
  "digitValue c = of_char c - 48"

definition parseNat :: "string \<Rightarrow> nat" where
  "parseNat s = foldl (\<lambda>n c. 10 * n + digitValue c) 0 s"

definition isArrayIndex :: "string \<Rightarrow> bool" where
  "isArrayIndex k =
     (k \<noteq> [] \<and> list_all isDigit k \<and> (k = ''0'' \<or> hd k \<noteq> CHR ''0'') \<and> parseNat k < 4294967295)"

definition ownEntries :: "(string \<times> 'v) list \<Rightarrow> (string \<times> 'v) list" where
  "ownEntries m =
     sort_key (\<lambda>e. parseNat (fst e)) (filter (\<lambda>e. isArrayIndex (fst e)) m)
       @ filter (\<lambda>e. \<not> isArrayIndex (fst e)) m"

text \<open>
  The property names an object literal \<open>{ }\<close> inherits from \<open>Object.prototype\<close>. Reading one
  of them from an object that has no own property of that name yields the inherited function
  (for \<open>__proto__\<close> the prototype itself): a value that is neither \<open>null\<close> nor \<open>undefined\<close>
  and that has no \<open>push\<close>.
\<close>

definition objectPrototypeKeys :: "string list" where
  "objectPrototypeKeys =
     [''constructor'', ''__defineGetter__'', ''__defineSetter__'', ''hasOwnProperty'',
      ''__lookupGetter__'', ''__lookupSetter__'', ''isPrototypeOf'', ''propertyIsEnumerable'',
      ''toString'', ''valueOf'', ''__proto__'', ''toLocaleString'']"

subsection \<open>\<open>findApiObjectDefinitions\<close>\<close>

text \<open>The object \<open>{ ...type, schema: def }\<close>.\<close>

definition withSchema :: "ApiObjectName \<Rightarrow> JSONSchema4 \<Rightarrow> ApiObjectDefinition" where
  "withSchema type d =
     \<lparr> fullname = fullname type, basename = basename type, group = group type,
       version = version type, schema = d \<rparr>"

text \<open>
  The three statements \<open>const list = map[k] ?? []; map[k] = list; list.push(x)\<close>. An own
  property is extended in place; a new key is created behind the existing ones; a key
  inherited from the prototype makes \<open>list\<close> the inherited value, and the call of its missing
  \<open>push\<close> throws.
\<close>

definition pushDefinition ::
  "ApiObjectDefinitions \<Rightarrow> string \<Rightarrow> ApiObjectDefinition \<Rightarrow> error + ApiObjectDefinitions" where
  "pushDefinition m k x =
     (case map_of m k of
        Some list \<Rightarrow> Inr (AList.update k (list @ [x]) m)
      | None \<Rightarrow>
          if k \<in> set objectPrototypeKeys then Inl (TypeError ''list.push is not a function'')
          else Inr (m @ [(k, [x])]))"

text \<open>
  The loop over \<open>Object.entries(schema.definitions || { })\<close>. \<open>parseApiTypeName\<close> is imported
  from \<open>./k8s-util\<close>, which is not part of the sources; it is the parameter \<open>parse\<close>.
\<close>

fun findLoop ::
  "(string \<Rightarrow> ApiObjectName) \<Rightarrow> (string \<times> JSONSchema4) list \<Rightarrow> ApiObjectDefinitions
     \<Rightarrow> error + ApiObjectDefinitions" where
  "findLoop parse [] m = Inr m"
| "findLoop parse ((typename, d) # rest) m =
     (case tryGetObjectName d of
        None \<Rightarrow> findLoop parse rest m
      | Some kinds \<Rightarrow>
          (case pushDefinition m (basename (parse typename)) (withSchema (parse typename) d) of
             Inl e \<Rightarrow> Inl e
           | Inr m' \<Rightarrow> findLoop parse rest m'))"

definition findApiObjectDefinitions ::
  "(string \<Rightarrow> ApiObjectName) \<Rightarrow> JSONSchema4 \<Rightarrow> error + ApiObjectDefinitions" where
  "findApiObjectDefinitions parse schema0 =
     findLoop parse (case definitions schema0 of None \<Rightarrow> [] | Some ds \<Rightarrow> ds) []"

subsection \<open>\<open>selectApiObjects\<close>\<close>

text \<open>
  \<open>Array.prototype.sort\<close> with a comparator: a stable sort. Each element is put in front of
  the first later element that it does not exceed.
\<close>

fun insertWith :: "('a \<Rightarrow> 'a \<Rightarrow> int) \<Rightarrow> 'a \<Rightarrow> 'a list \<Rightarrow> 'a list" where
  "insertWith cmp x [] = [x]"
| "insertWith cmp x (y # ys) = (if cmp x y \<le> 0 then x # y # ys else y # insertWith cmp x ys)"

fun sortWith :: "('a \<Rightarrow> 'a \<Rightarrow> int) \<Rightarrow> 'a list \<Rightarrow> 'a list" where
  "sortWith cmp [] = []"
| "sortWith cmp (x # xs) = insertWith cmp x (sortWith cmp xs)"

text \<open>
  The language fixes the result of \<open>sort\<close> only for a comparator that is consistent on the
  elements sorted: the signs of \<open>cmp a b\<close> and \<open>cmp b a\<close> are opposite, and \<open>\<le>\<close> is
  transitive.
\<close>

definition consistentComparator :: "('a \<Rightarrow> 'a \<Rightarrow> int) \<Rightarrow> 'a set \<Rightarrow> bool" where
  "consistentComparator cmp S =
     ((\<forall>a\<in>S. \<forall>b\<in>S. sgn (cmp a b) = - sgn (cmp b a)) \<and>
      (\<forall>a\<in>S. \<forall>b\<in>S. \<forall>c\<in>S. cmp a b \<le> 0 \<and> cmp b c \<le> 0 \<longrightarrow> cmp a c \<le> 0))"

text \<open>
  The body of the loop for one candidate array: the array after \<open>defs.sort\<close>, and the value
  pushed to \<open>result\<close>. \<open>defs[defs.length - 1]\<close> of an empty array is \<open>undefined\<close> (\<open>None\<close>);
  \<open>find\<close> yields the first element that satisfies the test, or \<open>undefined\<close>.
\<close>

definition selectOne ::
  "(ApiObjectDefinition \<Rightarrow> ApiObjectDefinition \<Rightarrow> int) \<Rightarrow> string list
     \<Rightarrow> ApiObjectDefinition list \<Rightarrow> ApiObjectDefinition option" where
  "selectOne cmp incl defs =
     (let sorted = sortWith cmp defs;
          selected = (if sorted = [] then None else Some (last sorted));
          included = find (\<lambda>x. fullname x \<in> set incl) sorted
      in case included of Some i \<Rightarrow> Some i | None \<Rightarrow> selected)"

text \<open>
  \<open>selectApiObjects\<close> returns \<open>result\<close>; it also sorts every array of \<open>map\<close> in place, so the
  model returns the object as the call leaves it. \<open>compareApiVersions\<close> is imported from
  \<open>./k8s-util\<close>, which is not part of the sources; it is the parameter \<open>cmp\<close>.
\<close>

definition selectApiObjects ::
  "(ApiObjectDefinition \<Rightarrow> ApiObjectDefinition \<Rightarrow> int) \<Rightarrow> ApiObjectDefinitions
     \<Rightarrow> SelectApiObjectsOptions
     \<Rightarrow> ApiObjectDefinition option list \<times> ApiObjectDefinitions" where
  "selectApiObjects cmp m options =
     (let incl = (case include_list options of None \<Rightarrow> [] | Some i \<Rightarrow> i)
      in (map (\<lambda>(k, defs). selectOne cmp incl defs) (ownEntries m),
          map (\<lambda>(k, defs). (k, sortWith cmp defs)) m))"

subsection \<open>The helpers of \<open>./k8s-util\<close>\<close>

text \<open>
  Modelled from the spec: the stability tiers (alpha, beta, GA) and the three parts of a
  version string that the comparator (4.2) ranks. The module \<open>./k8s-util\<close> that parses and
  compares versions is not part of the sources.
\<close>

datatype stability = Alpha | Beta | Stable

record ApiVersion =
  major :: nat
  level :: stability
  subversion :: nat

text \<open>
  Modelled from the spec: the version pattern of the parser (4.1), which \<open>./k8s-util\<close>
  implements and the sources do not contain: a leading \<open>v\<close> followed by a numeral, optionally
  followed by \<open>alpha\<close> or \<open>beta\<close> plus a numeral. A missing trailing numeral counts as 0 (4.2).
  The spec says nothing about any other string: \<open>None\<close>.
\<close>

definition parseSuffix :: "string \<Rightarrow> (stability \<times> nat) option" where
  "parseSuffix s =
     (if s = [] then Some (Stable, 0)
      else if take 5 s = ''alpha'' \<and> drop 5 s \<noteq> [] \<and> list_all isDigit (drop 5 s)
        then Some (Alpha, parseNat (drop 5 s))
      else if take 4 s = ''beta'' \<and> drop 4 s \<noteq> [] \<and> list_all isDigit (drop 4 s)
        then Some (Beta, parseNat (drop 4 s))
      else None)"

definition parseApiVersion :: "string \<Rightarrow> ApiVersion option" where
  "parseApiVersion s =
     (case s of
        [] \<Rightarrow> None
      | c # rest \<Rightarrow>
          if c \<noteq> CHR ''v'' \<or> takeWhile isDigit rest = [] then None
          else (case parseSuffix (dropWhile isDigit rest) of
                  None \<Rightarrow> None
                | Some (l, n) \<Rightarrow>
                    Some \<lparr> major = parseNat (takeWhile isDigit rest), level = l,
                           subversion = n \<rparr>))"

text \<open>
  Modelled from the spec: \<open>compareApiVersions\<close> of \<open>./k8s-util\<close> (4.2), which the sources do
  not contain. Highest is most preferred: the numeral after \<open>v\<close>, then the stability rank
  (GA above \<open>beta\<close> above \<open>alpha\<close>), then the trailing numeral. The result is the sign of the
  comparison; where a version string is outside the pattern the spec gives no result: \<open>None\<close>.
\<close>

definition compareNumbers :: "nat \<Rightarrow> nat \<Rightarrow> int" where
  "compareNumbers a b = (if a < b then - 1 else if b < a then 1 else 0)"

fun stabilityRank :: "stability \<Rightarrow> nat" where
  "stabilityRank Alpha = 0"
| "stabilityRank Beta = 1"
| "stabilityRank Stable = 2"

definition compareVersions :: "ApiVersion \<Rightarrow> ApiVersion \<Rightarrow> int" where
  "compareVersions l r =
     (if major l \<noteq> major r then compareNumbers (major l) (major r)
      else if level l \<noteq> level r
        then compareNumbers (stabilityRank (level l)) (stabilityRank (level r))
      else compareNumbers (subversion l) (subversion r))"

definition compareApiVersions ::
  "'a ApiObjectName_scheme \<Rightarrow> 'a ApiObjectName_scheme \<Rightarrow> int option" where
  "compareApiVersions lhs rhs =
     (case parseApiVersion (version lhs) of
        None \<Rightarrow> None
      | Some l \<Rightarrow>
          (case parseApiVersion (version rhs) of
             None \<Rightarrow> None
           | Some r \<Rightarrow> Some (compareVersions l r)))"

text \<open>
  Modelled from the spec: \<open>parseApiTypeName\<close> of \<open>./k8s-util\<close> (4.1), which the sources do not
  contain. The last segment of the dotted name that matches the version pattern is the
  version; the segments behind it, joined by the separator, are the basename, the segments
  before it the group. The spec leaves the result for a name without a version segment
  open: \<open>None\<close>.
\<close>

fun join :: "string \<Rightarrow> string list \<Rightarrow> string" where
  "join sep [] = []"
| "join sep [p] = p"
| "join sep (p # q # ps) = p @ sep @ join sep (q # ps)"

definition parseApiTypeName :: "string \<Rightarrow> ApiObjectName option" where
  "parseApiTypeName name =
     (let parts = rev (split CHR ''.'' name);
          behind = takeWhile (\<lambda>p. parseApiVersion p = None) parts
      in case dropWhile (\<lambda>p. parseApiVersion p = None) parts of
           [] \<Rightarrow> None
         | v # front \<Rightarrow>
             Some \<lparr> fullname = name, basename = join ''.'' (rev behind),
                    group = join ''.'' (rev front), version = v \<rparr>)"

text \<open>
  Modelled from the spec: the two helpers as the functions that the module calls. They are
  determined on the names and versions for which the spec gives a result, and on nothing
  else.
\<close>

definition parseName :: "string \<Rightarrow> ApiObjectName" where
  "parseName name = the (parseApiTypeName name)"

definition compareDefs :: "ApiObjectDefinition \<Rightarrow> ApiObjectDefinition \<Rightarrow> int" where
  "compareDefs lhs rhs = the (compareApiVersions lhs rhs)"

subsection \<open>What the index is expected to hold\<close>

text \<open>The definitions the classifier accepts, and what they contribute under one key.\<close>

definition accepted :: "JSONSchema4 \<Rightarrow> bool" where
  "accepted d = (tryGetObjectName d \<noteq> None)"

definition acceptedBasenames ::
  "(string \<Rightarrow> ApiObjectName) \<Rightarrow> (string \<times> JSONSchema4) list \<Rightarrow> string list" where
  "acceptedBasenames parse defs =
     map (\<lambda>(n, d). basename (parse n)) (filter (\<lambda>(n, d). accepted d) defs)"

definition candidates ::
  "(string \<Rightarrow> ApiObjectName) \<Rightarrow> (string \<times> JSONSchema4) list \<Rightarrow> string
     \<Rightarrow> ApiObjectDefinition list" where
  "candidates parse defs k =
     map (\<lambda>(n, d). withSchema (parse n) d)
       (filter (\<lambda>(n, d). accepted d \<and> basename (parse n) = k) defs)"

subsection \<open>Example documents\<close>

definition emptySchema :: JSONSchema4 where
  "emptySchema = JSONSchema4 None None None"

text \<open>A definition of an API object: the vendor extension and a \<open>metadata\<close> property.\<close>

definition apiObjectSchema :: "string \<Rightarrow> string \<Rightarrow> string \<Rightarrow> JSONSchema4" where
  "apiObjectSchema g k v =
     JSONSchema4 (Some [GroupVersionKind g k v])
       (Some [(''metadata'', emptySchema), (''spec'', emptySchema)]) None"

text \<open>The vendor extension without a \<open>metadata\<close> property, as \<open>DeleteOptions\<close> has it.\<close>

definition deleteOptionsSchema :: JSONSchema4 where
  "deleteOptionsSchema =
     JSONSchema4 (Some [GroupVersionKind [] ''DeleteOptions'' ''v1''])
       (Some [(''gracePeriodSeconds'', emptySchema)]) None"

text \<open>A data type: no vendor extension.\<close>

definition containerSchema :: JSONSchema4 where
  "containerSchema = JSONSchema4 None (Some [(''image'', emptySchema)]) None"

definition deployment_v1 :: ApiObjectDefinition where
  "deployment_v1 =
     \<lparr> fullname = ''apps.v1.Deployment'', basename = ''Deployment'', group = ''apps'',
       version = ''v1'', schema = apiObjectSchema ''apps'' ''Deployment'' ''v1'' \<rparr>"

definition deployment_v1beta1 :: ApiObjectDefinition where
  "deployment_v1beta1 =
     \<lparr> fullname = ''apps.v1beta1.Deployment'', basename = ''Deployment'', group = ''apps'',
       version = ''v1beta1'', schema = apiObjectSchema ''apps'' ''Deployment'' ''v1beta1'' \<rparr>"

definition pod_v1 :: ApiObjectDefinition where
  "pod_v1 =
     \<lparr> fullname = ''core.v1.Pod'', basename = ''Pod'', group = ''core'',
       version = ''v1'', schema = apiObjectSchema [] ''Pod'' ''v1'' \<rparr>"

definition container_v1 :: ApiObjectDefinition where
  "container_v1 =
     \<lparr> fullname = ''core.v1.Container'', basename = ''Container'', group = ''core'',
       version = ''v1'', schema = containerSchema \<rparr>"

definition deploymentIndex :: ApiObjectDefinitions where
  "deploymentIndex = [(''Deployment'', [deployment_v1, deployment_v1beta1])]"

definition exampleDocument :: JSONSchema4 where
  "exampleDocument =
     JSONSchema4 None None (Some
       [(''apps.v1.Deployment'', apiObjectSchema ''apps'' ''Deployment'' ''v1''),
        (''meta.v1.DeleteOptions'', deleteOptionsSchema),
        (''core.v1.Container'', containerSchema),
        (''core.v1.Pod'', apiObjectSchema [] ''Pod'' ''v1''),
        (''apps.v1beta1.Deployment'', apiObjectSchema ''apps'' ''Deployment'' ''v1beta1'')])"

definition exampleIndex :: ApiObjectDefinitions where
  "exampleIndex = [(''Deployment'', [deployment_v1, deployment_v1beta1]), (''Pod'', [pod_v1])]"

text \<open>A document with one API object whose basename is a name every object inherits.\<close>

definition prototypeDocument :: JSONSchema4 where
  "prototypeDocument =
     JSONSchema4 None None (Some
       [(''io.k8s.api.core.v1.constructor'', apiObjectSchema [] ''constructor'' ''v1'')])"

definition noArgv :: Argv where
  "noArgv = \<lparr> argv_include = None, argv_exclude = None \<rparr>"

section \<open>Properties\<close>

subsection \<open>The sort\<close>

lemma mset_insertWith: "mset (insertWith cmp x xs) = add_mset x (mset xs)"
  by (induction xs) auto

lemma mset_sortWith: "mset (sortWith cmp xs) = mset xs"
  by (induction xs) (auto simp: mset_insertWith)

lemma set_sortWith: "set (sortWith cmp xs) = set xs"
  using mset_sortWith [of cmp xs] by (metis set_mset_mset)

lemma length_sortWith: "length (sortWith cmp xs) = length xs"
  using mset_sortWith [of cmp xs] by (metis size_mset)

lemma sortWith_Nil_iff: "sortWith cmp xs = [] \<longleftrightarrow> xs = []"
  using length_sortWith [of cmp xs] by (metis length_0_conv)

lemma set_insertWith: "set (insertWith cmp x xs) = insert x (set xs)"
  using mset_insertWith [of cmp x xs] by (metis set_mset_add_mset_insert set_mset_mset)

lemma consistent_refl: "consistentComparator cmp S \<Longrightarrow> a \<in> S \<Longrightarrow> cmp a a = 0"
  unfolding consistentComparator_def
  by (metis add.inverse_neutral equal_neg_zero sgn_0_0)

lemma consistent_total:
  "consistentComparator cmp S \<Longrightarrow> a \<in> S \<Longrightarrow> b \<in> S \<Longrightarrow> \<not> cmp a b \<le> 0 \<Longrightarrow> cmp b a \<le> 0"
proof -
  assume c: "consistentComparator cmp S" and ab: "a \<in> S" "b \<in> S" and n: "\<not> cmp a b \<le> 0"
  from c ab have "sgn (cmp a b) = - sgn (cmp b a)"
    unfolding consistentComparator_def by blast
  moreover from n have "sgn (cmp a b) = 1" by simp
  ultimately have "sgn (cmp b a) = - 1" by simp
  then show "cmp b a \<le> 0" by (simp add: sgn_if split: if_splits)
qed

lemma consistent_trans:
  "consistentComparator cmp S \<Longrightarrow> a \<in> S \<Longrightarrow> b \<in> S \<Longrightarrow> c \<in> S \<Longrightarrow>
     cmp a b \<le> 0 \<Longrightarrow> cmp b c \<le> 0 \<Longrightarrow> cmp a c \<le> 0"
  unfolding consistentComparator_def by blast

lemma consistent_subset:
  "consistentComparator cmp S \<Longrightarrow> T \<subseteq> S \<Longrightarrow> consistentComparator cmp T"
  unfolding consistentComparator_def by (meson subsetD)

lemma sorted_insertWith:
  assumes "consistentComparator cmp S" "x \<in> S" "set xs \<subseteq> S"
    and "sorted_wrt (\<lambda>a b. cmp a b \<le> 0) xs"
  shows "sorted_wrt (\<lambda>a b. cmp a b \<le> 0) (insertWith cmp x xs)"
  using assms
proof (induction xs)
  case Nil
  then show ?case by simp
next
  case (Cons y ys)
  show ?case
  proof (cases "cmp x y \<le> 0")
    case True
    have "\<forall>z\<in>set ys. cmp x z \<le> 0"
    proof
      fix z assume z: "z \<in> set ys"
      with Cons.prems have "cmp y z \<le> 0" by simp
      with True show "cmp x z \<le> 0"
        using consistent_trans [OF Cons.prems(1), of x y z] Cons.prems z by auto
    qed
    with True Cons.prems show ?thesis by simp
  next
    case False
    then have yx: "cmp y x \<le> 0"
      using consistent_total [OF Cons.prems(1), of x y] Cons.prems by auto
    have "sorted_wrt (\<lambda>a b. cmp a b \<le> 0) (insertWith cmp x ys)"
      using Cons.IH Cons.prems by simp
    moreover have "\<forall>z\<in>set (insertWith cmp x ys). cmp y z \<le> 0"
      using yx Cons.prems by (auto simp: set_insertWith)
    ultimately show ?thesis using False by simp
  qed
qed

lemma sorted_sortWith:
  "consistentComparator cmp (set xs) \<Longrightarrow> sorted_wrt (\<lambda>a b. cmp a b \<le> 0) (sortWith cmp xs)"
proof (induction xs)
  case Nil
  then show ?case by simp
next
  case (Cons x xs)
  have "consistentComparator cmp (set xs)"
    using Cons.prems consistent_subset by (metis set_subset_Cons)
  then have "sorted_wrt (\<lambda>a b. cmp a b \<le> 0) (sortWith cmp xs)" by (rule Cons.IH)
  then show ?case
    using sorted_insertWith [OF Cons.prems, of x "sortWith cmp xs"]
    by (simp add: set_sortWith subset_insertI)
qed

lemma sortWith_sorted:
  "sorted_wrt (\<lambda>a b. cmp a b \<le> 0) xs \<Longrightarrow> sortWith cmp xs = xs"
proof (induction xs)
  case Nil
  then show ?case by simp
next
  case (Cons x xs)
  then have "sortWith cmp xs = xs" by simp
  moreover have "insertWith cmp x xs = x # xs"
    using Cons.prems by (cases xs) auto
  ultimately show ?case by simp
qed

lemma sortWith_idem:
  "consistentComparator cmp (set xs) \<Longrightarrow> sortWith cmp (sortWith cmp xs) = sortWith cmp xs"
  by (simp add: sortWith_sorted sorted_sortWith)

lemma sorted_last_max:
  assumes "consistentComparator cmp (set xs)" "sorted_wrt (\<lambda>a b. cmp a b \<le> 0) xs" "x \<in> set xs"
  shows "cmp x (last xs) \<le> 0"
proof -
  from assms(3) have ne: "xs \<noteq> []" by auto
  then have xs: "xs = butlast xs @ [last xs]" by simp
  show ?thesis
  proof (cases "x = last xs")
    case True
    then show ?thesis using consistent_refl [OF assms(1) assms(3)] by simp
  next
    case False
    with assms(3) xs have "x \<in> set (butlast xs)"
      by (metis Un_iff empty_iff empty_set set_ConsD set_append)
    moreover have "sorted_wrt (\<lambda>a b. cmp a b \<le> 0) (butlast xs @ [last xs])"
      using assms(2) xs by simp
    ultimately show ?thesis by (simp add: sorted_wrt_append)
  qed
qed

lemma filter_insertWith:
  assumes "consistentComparator cmp S" and "x \<in> S" and "set xs \<subseteq> S" and "a \<in> S"
  shows "filter (\<lambda>y. cmp y a = 0) (insertWith cmp x xs) =
     (if cmp x a = 0 then x # filter (\<lambda>y. cmp y a = 0) xs else filter (\<lambda>y. cmp y a = 0) xs)"
  using assms(3)
proof (induction xs)
  case Nil
  then show ?case by simp
next
  case (Cons y ys)
  show ?case
  proof (cases "cmp x y \<le> 0")
    case True
    then show ?thesis by simp
  next
    case False
    have y: "y \<in> S" and ys: "set ys \<subseteq> S" using Cons.prems by auto
    have "\<not> (cmp x a = 0 \<and> cmp y a = 0)"
    proof
      assume eq: "cmp x a = 0 \<and> cmp y a = 0"
      have "sgn (cmp y a) = - sgn (cmp a y)"
        using assms(1) y assms(4) unfolding consistentComparator_def by blast
      with eq have "cmp a y = 0" by (simp add: sgn_if split: if_splits)
      with eq have "cmp x y \<le> 0"
        using consistent_trans [OF assms(1) assms(2) assms(4) y] by simp
      with False show False by simp
    qed
    with False Cons.IH [OF ys] show ?thesis by auto
  qed
qed

lemma filter_sortWith:
  assumes "consistentComparator cmp (set xs)" and "a \<in> set xs"
  shows "filter (\<lambda>y. cmp y a = 0) (sortWith cmp xs) = filter (\<lambda>y. cmp y a = 0) xs"
proof -
  have "filter (\<lambda>y. cmp y a = 0) (sortWith cmp ys) = filter (\<lambda>y. cmp y a = 0) ys"
    if "set ys \<subseteq> set xs" for ys
    using that
  proof (induction ys)
    case Nil
    then show ?case by simp
  next
    case (Cons z zs)
    then have z: "z \<in> set xs" and zs: "set zs \<subseteq> set xs" by auto
    have "set (sortWith cmp zs) \<subseteq> set xs" using zs by (simp add: set_sortWith)
    from filter_insertWith [OF assms(1) z this assms(2)] Cons.IH [OF zs]
    show ?case by simp
  qed
  then show ?thesis by simp
qed

subsection \<open>Enumeration and the index builder\<close>

lemma mset_ownEntries: "mset (ownEntries m) = mset m"
  by (simp add: ownEntries_def)

lemma set_ownEntries: "set (ownEntries m) = set m"
  using mset_ownEntries [of m] by (metis set_mset_mset)

lemma length_ownEntries: "length (ownEntries m) = length m"
  using mset_ownEntries [of m] by (metis size_mset)

lemma distinct_keys_ownEntries: "distinct (map fst (ownEntries m)) = distinct (map fst m)"
proof -
  have "mset (map fst (ownEntries m)) = mset (map fst m)"
    by (simp add: mset_ownEntries)
  then show ?thesis by (rule mset_eq_imp_distinct_iff)
qed

lemma insort_key_map:
  "insort_key f (g x) (map g xs) = map g (insort_key (\<lambda>y. f (g y)) x xs)"
  by (induction xs) auto

lemma sort_key_map: "sort_key f (map g xs) = map g (sort_key (\<lambda>y. f (g y)) xs)"
  by (induction xs) (auto simp: insort_key_map)

lemma ownEntries_map_values:
  "ownEntries (map (\<lambda>(k, v). (k, f v)) m) = map (\<lambda>(k, v). (k, f v)) (ownEntries m)"
  by (simp add: ownEntries_def filter_map sort_key_map o_def case_prod_beta)

lemma pushDefinition_Inr:
  assumes "pushDefinition m k x = Inr m'"
  shows "m' = AList.update k ((case map_of m k of None \<Rightarrow> [] | Some l \<Rightarrow> l) @ [x]) m"
proof (cases "map_of m k")
  case None
  then have "k \<notin> fst ` set m" by (simp add: map_of_eq_None_iff)
  then have "AList.update k [x] m = m @ [(k, [x])]"
    by (induction m) auto
  with None assms show ?thesis
    by (auto simp: pushDefinition_def split: if_splits)
next
  case (Some l)
  with assms show ?thesis by (simp add: pushDefinition_def)
qed

lemma pushDefinition_Inl:
  "pushDefinition m k x = Inl e \<longleftrightarrow>
     k \<notin> fst ` set m \<and> k \<in> set objectPrototypeKeys \<and> e = TypeError ''list.push is not a function''"
proof (cases "map_of m k")
  case None
  then have "k \<notin> fst ` set m" by (simp add: map_of_eq_None_iff)
  with None show ?thesis by (auto simp: pushDefinition_def)
next
  case (Some l)
  then have "k \<in> fst ` set m" by (metis map_of_eq_None_iff option.distinct(1))
  with Some show ?thesis by (simp add: pushDefinition_def)
qed

lemma candidates_Cons:
  "candidates parse ((n, d) # rest) k =
     (if accepted d \<and> basename (parse n) = k then withSchema (parse n) d # candidates parse rest k
      else candidates parse rest k)"
  by (simp add: candidates_def)

lemma findLoop_lookup:
  "findLoop parse defs m = Inr m' \<Longrightarrow>
     map_of m' k =
       (case map_of m k of
          Some l \<Rightarrow> Some (l @ candidates parse defs k)
        | None \<Rightarrow> if candidates parse defs k = [] then None else Some (candidates parse defs k))"
proof (induction parse defs m rule: findLoop.induct)
  case (1 parse m)
  then show ?case by (simp add: candidates_def split: option.splits)
next
  case (2 parse n d rest m)
  show ?case
  proof (cases "tryGetObjectName d")
    case None
    then have "candidates parse ((n, d) # rest) k = candidates parse rest k"
      by (simp add: candidates_Cons accepted_def)
    note eq = this
    show ?thesis unfolding eq using 2 None by simp
  next
    case (Some g)
    with "2.prems" obtain m1 where
      m1: "pushDefinition m (basename (parse n)) (withSchema (parse n) d) = Inr m1"
      and rest: "findLoop parse rest m1 = Inr m'"
      by (auto split: sum.splits)
    note upd = pushDefinition_Inr [OF m1]
    have "map_of m1 =
        (map_of m)(basename (parse n) \<mapsto>
          (case map_of m (basename (parse n)) of None \<Rightarrow> [] | Some l \<Rightarrow> l) @ [withSchema (parse n) d])"
      by (simp add: upd update_conv')
    with "2.IH"(2) [OF Some m1 rest] Some show ?thesis
      by (auto simp: candidates_Cons accepted_def split: option.splits)
  qed
qed

lemma distinct_pushDefinition:
  "pushDefinition m k x = Inr m' \<Longrightarrow> distinct (map fst m) \<Longrightarrow> distinct (map fst m')"
  by (drule pushDefinition_Inr) (simp add: distinct_update)

lemma findLoop_distinct:
  "findLoop parse defs m = Inr m' \<Longrightarrow> distinct (map fst m) \<Longrightarrow> distinct (map fst m')"
proof (induction defs arbitrary: m)
  case Nil
  then show ?case by simp
next
  case (Cons e rest)
  obtain n d where e: "e = (n, d)" by (cases e)
  with Cons show ?case
    by (auto split: option.splits sum.splits dest: distinct_pushDefinition)
qed

lemma findLoop_append:
  "findLoop parse (xs @ ys) m =
     (case findLoop parse xs m of Inl e \<Rightarrow> Inl e | Inr m' \<Rightarrow> findLoop parse ys m')"
proof (induction xs arbitrary: m)
  case Nil
  then show ?case by simp
next
  case (Cons e rest)
  obtain n d where e: "e = (n, d)" by (cases e)
  with Cons show ?case by (auto split: option.splits sum.splits)
qed

lemma acceptedBasenames_Cons:
  "acceptedBasenames parse ((n, d) # rest) =
     (if accepted d then basename (parse n) # acceptedBasenames parse rest
      else acceptedBasenames parse rest)"
  by (simp add: acceptedBasenames_def)

lemma findLoop_fails_iff:
  "(\<exists>err. findLoop parse defs m = Inl err) \<longleftrightarrow>
     (\<exists>k\<in>set (acceptedBasenames parse defs). k \<in> set objectPrototypeKeys \<and> k \<notin> fst ` set m)"
proof (induction parse defs m rule: findLoop.induct)
  case (1 parse m)
  then show ?case by (simp add: acceptedBasenames_def)
next
  case (2 parse n d rest m)
  show ?case
  proof (cases "tryGetObjectName d")
    case None
    with 2 show ?thesis by (simp add: acceptedBasenames_Cons accepted_def)
  next
    case (Some g)
    let ?k = "basename (parse n)"
    have names: "set (acceptedBasenames parse ((n, d) # rest))
        = insert ?k (set (acceptedBasenames parse rest))"
      using Some by (simp add: acceptedBasenames_Cons accepted_def)
    show ?thesis
    proof (cases "pushDefinition m ?k (withSchema (parse n) d)")
      case (Inl err)
      then have "?k \<notin> fst ` set m \<and> ?k \<in> set objectPrototypeKeys"
        by (simp add: pushDefinition_Inl)
      moreover have "\<exists>err. findLoop parse ((n, d) # rest) m = Inl err"
        using Inl Some by simp
      ultimately show ?thesis unfolding names by blast
    next
      case (Inr m1)
      have keys: "fst ` set m1 = insert ?k (fst ` set m)"
        using pushDefinition_Inr [OF Inr] by (simp add: dom_update)
      have ok: "?k \<in> fst ` set m \<or> ?k \<notin> set objectPrototypeKeys"
        using Inr pushDefinition_Inl [of m ?k "withSchema (parse n) d"] by auto
      have "(\<exists>err. findLoop parse ((n, d) # rest) m = Inl err)
          = (\<exists>err. findLoop parse rest m1 = Inl err)"
        using Some Inr by simp
      also have "\<dots> = (\<exists>k\<in>set (acceptedBasenames parse rest).
                          k \<in> set objectPrototypeKeys \<and> k \<notin> fst ` set m1)"
        using "2.IH"(2) [OF Some Inr] .
      also have "\<dots> = (\<exists>k\<in>set (acceptedBasenames parse ((n, d) # rest)).
                          k \<in> set objectPrototypeKeys \<and> k \<notin> fst ` set m)"
        unfolding names keys using ok by blast
      finally show ?thesis .
    qed
  qed
qed

subsection \<open>Splitting strings and the classifier\<close>

lemma split_no_sep: "sep \<notin> set s \<Longrightarrow> split sep s = [s]"
  by (induction s) auto

lemma split_first: "sep \<notin> set a \<Longrightarrow> split sep (a @ sep # b) = a # split sep b"
  by (induction a) auto

lemma split_takeWhile:
  "split sep s = takeWhile (\<lambda>c. c \<noteq> sep) s #
     (case dropWhile (\<lambda>c. c \<noteq> sep) s of [] \<Rightarrow> [] | _ # r \<Rightarrow> split sep r)"
  by (induction s) (auto split: list.splits)

lemma map_of_Some_iff_key: "(\<exists>v. map_of xs k = Some v) \<longleftrightarrow> k \<in> fst ` set xs"
  using map_of_eq_None_iff [of xs k] by auto

lemma tryGetObjectName_Some_iff:
  "tryGetObjectName d = Some g \<longleftrightarrow>
     (\<exists>gs props. x_kubernetes_group_version_kind d = Some (g # gs) \<and>
        properties d = Some props \<and> ''metadata'' \<in> fst ` set props)"
proof -
  have "tryGetObjectName d = Some g \<longleftrightarrow>
     (\<exists>gs props. x_kubernetes_group_version_kind d = Some (g # gs) \<and>
        properties d = Some props \<and> (\<exists>v. map_of props ''metadata'' = Some v))"
    by (auto simp: tryGetObjectName_def split: option.splits list.splits)
  then show ?thesis by (simp only: map_of_Some_iff_key)
qed

lemma tryGetObjectName_None_iff:
  "tryGetObjectName d = None \<longleftrightarrow>
     x_kubernetes_group_version_kind d = None \<or> x_kubernetes_group_version_kind d = Some [] \<or>
     properties d = None \<or> (\<exists>props. properties d = Some props \<and> ''metadata'' \<notin> fst ` set props)"
proof -
  have "tryGetObjectName d = None \<longleftrightarrow> (\<forall>g. tryGetObjectName d \<noteq> Some g)" by auto
  also have "\<dots> \<longleftrightarrow> x_kubernetes_group_version_kind d = None \<or>
     x_kubernetes_group_version_kind d = Some [] \<or>
     properties d = None \<or> (\<exists>props. properties d = Some props \<and> ''metadata'' \<notin> fst ` set props)"
    unfolding tryGetObjectName_Some_iff
    by (cases "x_kubernetes_group_version_kind d"; cases "properties d";
        cases "the (x_kubernetes_group_version_kind d)") auto
  finally show ?thesis .
qed

subsection \<open>The example documents, evaluated\<close>

lemma parseName_examples:
  "parseName ''apps.v1.Deployment'' =
     \<lparr> fullname = ''apps.v1.Deployment'', basename = ''Deployment'', group = ''apps'', version = ''v1'' \<rparr>"
  "parseName ''apps.v1beta1.Deployment'' =
     \<lparr> fullname = ''apps.v1beta1.Deployment'', basename = ''Deployment'', group = ''apps'', version = ''v1beta1'' \<rparr>"
  "parseName ''core.v1.Pod'' =
     \<lparr> fullname = ''core.v1.Pod'', basename = ''Pod'', group = ''core'', version = ''v1'' \<rparr>"
  "parseName ''io.k8s.api.core.v1.constructor'' =
     \<lparr> fullname = ''io.k8s.api.core.v1.constructor'', basename = ''constructor'',
       group = ''io.k8s.api.core'', version = ''v1'' \<rparr>"
  by (simp_all add: parseName_def parseApiTypeName_def parseApiVersion_def parseSuffix_def
        isDigit_def parseNat_def digitValue_def)

lemma parseApiVersion_examples:
  "parseApiVersion ''v1'' = Some \<lparr> major = 1, level = Stable, subversion = 0 \<rparr>"
  "parseApiVersion ''v2'' = Some \<lparr> major = 2, level = Stable, subversion = 0 \<rparr>"
  "parseApiVersion ''v1beta1'' = Some \<lparr> major = 1, level = Beta, subversion = 1 \<rparr>"
  "parseApiVersion ''v1alpha1'' = Some \<lparr> major = 1, level = Alpha, subversion = 1 \<rparr>"
  "parseApiVersion ''v1alpha3'' = Some \<lparr> major = 1, level = Alpha, subversion = 3 \<rparr>"
  by (simp_all add: parseApiVersion_def parseSuffix_def isDigit_def parseNat_def digitValue_def)

lemma tryGetObjectName_examples:
  "tryGetObjectName (apiObjectSchema g k v) = Some (GroupVersionKind g k v)"
  "tryGetObjectName deleteOptionsSchema = None"
  "tryGetObjectName containerSchema = None"
  by (simp_all add: tryGetObjectName_def apiObjectSchema_def deleteOptionsSchema_def
        containerSchema_def)

lemma findApiObjectDefinitions_exampleDocument:
  "findApiObjectDefinitions parseName exampleDocument = Inr exampleIndex"
  by (simp add: findApiObjectDefinitions_def exampleDocument_def exampleIndex_def
        tryGetObjectName_examples parseName_examples pushDefinition_def withSchema_def
        objectPrototypeKeys_def deployment_v1_def deployment_v1beta1_def pod_v1_def)

lemma findApiObjectDefinitions_prototypeDocument:
  "findApiObjectDefinitions parseName prototypeDocument
     = Inl (TypeError ''list.push is not a function'')"
  by (simp add: findApiObjectDefinitions_def prototypeDocument_def
        tryGetObjectName_examples parseName_examples pushDefinition_def withSchema_def
        objectPrototypeKeys_def)

subsection \<open>The comparator of the spec\<close>

lemma compareNumbers_antisym: "compareNumbers a b = - compareNumbers b a"
  by (simp add: compareNumbers_def)

lemma compareNumbers_le: "compareNumbers a b \<le> 0 \<longleftrightarrow> a \<le> b"
  by (simp add: compareNumbers_def)

lemma compareNumbers_eq_0: "compareNumbers a b = 0 \<longleftrightarrow> a = b"
  by (simp add: compareNumbers_def)

lemma compareNumbers_range: "compareNumbers a b \<in> {- 1, 0, 1}"
  by (simp add: compareNumbers_def)

lemma stabilityRank_inj: "stabilityRank a = stabilityRank b \<longleftrightarrow> a = b"
  by (cases a; cases b) simp_all

lemma compareVersions_antisym: "compareVersions l r = - compareVersions r l"
proof (cases "major l = major r")
  case False
  then have "major r \<noteq> major l" by simp
  with False show ?thesis
    by (simp add: compareVersions_def compareNumbers_antisym [of "major l"])
next
  case True
  show ?thesis
  proof (cases "level l = level r")
    case eq: True
    with True show ?thesis
      by (simp add: compareVersions_def compareNumbers_antisym [of "subversion l"])
  next
    case False
    then have "level r \<noteq> level l" by simp
    with True False show ?thesis
      by (simp add: compareVersions_def compareNumbers_antisym [of "stabilityRank (level l)"])
  qed
qed

lemma compareVersions_range: "compareVersions l r \<in> {- 1, 0, 1}"
  by (simp add: compareVersions_def compareNumbers_def)

lemma compareVersions_le:
  "compareVersions l r \<le> 0 \<longleftrightarrow>
     major l < major r \<or>
     (major l = major r \<and>
        (stabilityRank (level l) < stabilityRank (level r) \<or>
         (level l = level r \<and> subversion l \<le> subversion r)))"
proof (cases "major l = major r")
  case False
  then show ?thesis by (auto simp: compareVersions_def compareNumbers_le)
next
  case True
  show ?thesis
  proof (cases "level l = level r")
    case eq: True
    with True show ?thesis by (simp add: compareVersions_def compareNumbers_le)
  next
    case False
    then have "stabilityRank (level l) \<noteq> stabilityRank (level r)"
      by (simp add: stabilityRank_inj)
    with True False show ?thesis
      by (auto simp: compareVersions_def compareNumbers_le)
  qed
qed

lemma compareNumbers_less: "compareNumbers a b < 0 \<longleftrightarrow> a < b"
  by (simp add: compareNumbers_def)

lemma compareVersions_less:
  "compareVersions l r < 0 \<longleftrightarrow>
     major l < major r \<or>
     (major l = major r \<and>
        (stabilityRank (level l) < stabilityRank (level r) \<or>
         (level l = level r \<and> subversion l < subversion r)))"
proof (cases "major l = major r")
  case False
  then show ?thesis by (auto simp: compareVersions_def compareNumbers_less)
next
  case True
  show ?thesis
  proof (cases "level l = level r")
    case eq: True
    with True show ?thesis by (simp add: compareVersions_def compareNumbers_less)
  next
    case False
    with True show ?thesis
      by (auto simp: compareVersions_def compareNumbers_less)
  qed
qed

lemma compareVersions_eq_0:
  "compareVersions l r = 0 \<longleftrightarrow>
     major l = major r \<and> level l = level r \<and> subversion l = subversion r"
proof (cases "major l = major r")
  case False
  then show ?thesis by (simp add: compareVersions_def compareNumbers_eq_0)
next
  case True
  show ?thesis
  proof (cases "level l = level r")
    case eq: True
    with True show ?thesis by (simp add: compareVersions_def compareNumbers_eq_0)
  next
    case False
    with True show ?thesis
      by (simp add: compareVersions_def compareNumbers_eq_0 stabilityRank_inj)
  qed
qed

lemma compareVersions_trans:
  assumes "compareVersions a b \<le> 0" and "compareVersions b c \<le> 0"
  shows "compareVersions a c \<le> 0"
proof -
  let ?key = "\<lambda>v. (major v, stabilityRank (level v), subversion v)"
  have le: "compareVersions x y \<le> 0 \<longleftrightarrow>
      fst (?key x) < fst (?key y) \<or> (fst (?key x) = fst (?key y) \<and>
        (fst (snd (?key x)) < fst (snd (?key y)) \<or>
          (fst (snd (?key x)) = fst (snd (?key y)) \<and> snd (snd (?key x)) \<le> snd (snd (?key y)))))"
    for x y
    unfolding compareVersions_le by (simp add: stabilityRank_inj)
  obtain a1 a2 a3 where a: "?key a = (a1, a2, a3)" by simp
  obtain b1 b2 b3 where b: "?key b = (b1, b2, b3)" by simp
  obtain c1 c2 c3 where c: "?key c = (c1, c2, c3)" by simp
  from assms have "a1 < b1 \<or> (a1 = b1 \<and> (a2 < b2 \<or> (a2 = b2 \<and> a3 \<le> b3)))"
    and "b1 < c1 \<or> (b1 = c1 \<and> (b2 < c2 \<or> (b2 = c2 \<and> b3 \<le> c3)))"
    unfolding le a b c by simp_all
  then have "a1 < c1 \<or> (a1 = c1 \<and> (a2 < c2 \<or> (a2 = c2 \<and> a3 \<le> c3)))"
    by linarith
  then show ?thesis unfolding le a c by simp
qed

lemma compareApiVersions_Some:
  "parseApiVersion (version lhs) = Some l \<Longrightarrow> parseApiVersion (version rhs) = Some r \<Longrightarrow>
     compareApiVersions lhs rhs = Some (compareVersions l r)"
  by (simp add: compareApiVersions_def)

lemma compareApiVersions_Some_iff:
  "compareApiVersions lhs rhs = Some c \<longleftrightarrow>
     (\<exists>l r. parseApiVersion (version lhs) = Some l \<and> parseApiVersion (version rhs) = Some r \<and>
        c = compareVersions l r)"
  by (auto simp: compareApiVersions_def split: option.splits)

lemma compareApiVersions_flip:
  "compareApiVersions rhs lhs = map_option uminus (compareApiVersions lhs rhs)"
proof (cases "parseApiVersion (version lhs)")
  case None
  then show ?thesis by (simp add: compareApiVersions_def split: option.splits)
next
  case l: (Some l)
  show ?thesis
  proof (cases "parseApiVersion (version rhs)")
    case None
    with l show ?thesis by (simp add: compareApiVersions_def)
  next
    case (Some r)
    with l show ?thesis
      using compareVersions_antisym [of r l] by (simp add: compareApiVersions_def)
  qed
qed

lemma compareDefs_parsed:
  "parseApiVersion (version a) = Some l \<Longrightarrow> parseApiVersion (version b) = Some r \<Longrightarrow>
     compareDefs a b = compareVersions l r"
  by (simp add: compareDefs_def compareApiVersions_def)

lemma compareDefs_consistent:
  assumes "\<forall>d\<in>S. parseApiVersion (version d) \<noteq> None"
  shows "consistentComparator compareDefs S"
  unfolding consistentComparator_def
proof (intro conjI ballI impI)
  fix a b assume "a \<in> S" "b \<in> S"
  with assms obtain l r where "parseApiVersion (version a) = Some l"
    "parseApiVersion (version b) = Some r" by fastforce
  then show "sgn (compareDefs a b) = - sgn (compareDefs b a)"
    using compareVersions_antisym [of l r] by (simp add: compareDefs_parsed)
next
  fix a b c assume "a \<in> S" "b \<in> S" "c \<in> S" and le: "compareDefs a b \<le> 0 \<and> compareDefs b c \<le> 0"
  with assms obtain l r t where "parseApiVersion (version a) = Some l"
    "parseApiVersion (version b) = Some r" "parseApiVersion (version c) = Some t"
    by (metis option.exhaust)
  with le show "compareDefs a c \<le> 0"
    using compareVersions_trans [of l r t] by (simp add: compareDefs_parsed)
qed

subsection \<open>The selector and the returned index\<close>

lemma find_in_set: "find P xs = Some x \<Longrightarrow> x \<in> set xs \<and> P x"
  by (induction xs) (auto split: if_splits)

lemma selectOne_no_include:
  "\<forall>d\<in>set defs. fullname d \<notin> set incl \<Longrightarrow>
     selectOne cmp incl defs = (if defs = [] then None else Some (last (sortWith cmp defs)))"
proof -
  assume "\<forall>d\<in>set defs. fullname d \<notin> set incl"
  then have "find (\<lambda>x. fullname x \<in> set incl) (sortWith cmp defs) = None"
    by (simp add: find_None_iff set_sortWith)
  then show ?thesis by (simp add: selectOne_def Let_def sortWith_Nil_iff)
qed

lemma selectOne_include:
  "\<exists>d\<in>set defs. fullname d \<in> set incl \<Longrightarrow>
     selectOne cmp incl defs = find (\<lambda>x. fullname x \<in> set incl) (sortWith cmp defs)"
proof -
  assume "\<exists>d\<in>set defs. fullname d \<in> set incl"
  then have "find (\<lambda>x. fullname x \<in> set incl) (sortWith cmp defs) \<noteq> None"
    by (auto simp: find_None_iff set_sortWith)
  then show ?thesis by (auto simp: selectOne_def Let_def)
qed

lemma selectOne_member: "selectOne cmp incl defs = Some d \<Longrightarrow> d \<in> set defs"
proof -
  assume s: "selectOne cmp incl defs = Some d"
  show ?thesis
  proof (cases "find (\<lambda>x. fullname x \<in> set incl) (sortWith cmp defs)")
    case None
    with s have "sortWith cmp defs \<noteq> []" and "d = last (sortWith cmp defs)"
      by (auto simp: selectOne_def Let_def split: if_splits)
    then have "d \<in> set (sortWith cmp defs)" by simp
    then show ?thesis by (simp add: set_sortWith)
  next
    case (Some i)
    with s have "d = i" by (simp add: selectOne_def Let_def)
    with Some show ?thesis using find_in_set set_sortWith by fastforce
  qed
qed

lemma selectOne_defined: "defs \<noteq> [] \<Longrightarrow> \<exists>d. selectOne cmp incl defs = Some d"
  by (auto simp: selectOne_def Let_def sortWith_Nil_iff split: option.splits)

lemma selectOne_empty: "selectOne cmp incl [] = None"
  by (simp add: selectOne_def Let_def)

lemma selectOne_sorted:
  "consistentComparator cmp (set defs) \<Longrightarrow>
     selectOne cmp incl (sortWith cmp defs) = selectOne cmp incl defs"
  by (simp add: selectOne_def Let_def sortWith_idem)

lemma includes_of: "(case include_list options of None \<Rightarrow> [] | Some i \<Rightarrow> i) = incl
    \<Longrightarrow> fst (selectApiObjects cmp m options) = map (\<lambda>(k, defs). selectOne cmp incl defs) (ownEntries m)"
  by (auto simp: selectApiObjects_def Let_def)

lemma length_selectApiObjects: "length (fst (selectApiObjects cmp m options)) = length m"
  by (simp add: selectApiObjects_def Let_def length_ownEntries)

lemma selectApiObjects_nth:
  assumes "i < length (ownEntries m)" and "ownEntries m ! i = (k, defs)"
  shows "fst (selectApiObjects cmp m options) ! i =
     selectOne cmp (case include_list options of None \<Rightarrow> [] | Some i \<Rightarrow> i) defs"
  using assms by (simp add: selectApiObjects_def Let_def)

lemma basename_withSchema: "basename (withSchema t d) = basename t"
  by (simp add: withSchema_def)

lemma candidates_basename: "x \<in> set (candidates parse defs k) \<Longrightarrow> basename x = k"
  by (auto simp: candidates_def basename_withSchema)

lemma candidates_Nil_iff:
  "candidates parse defs k = [] \<longleftrightarrow> k \<notin> set (acceptedBasenames parse defs)"
  by (auto simp: candidates_def acceptedBasenames_def filter_empty_conv)

lemma findApiObjectDefinitions_lookup:
  assumes "findApiObjectDefinitions parse schema0 = Inr idx"
  shows "map_of idx k =
     (let cs = candidates parse (case definitions schema0 of None \<Rightarrow> [] | Some ds \<Rightarrow> ds) k
      in if cs = [] then None else Some cs)"
  using findLoop_lookup [OF assms [unfolded findApiObjectDefinitions_def], of k]
  by (simp add: Let_def)

lemma findApiObjectDefinitions_distinct:
  "findApiObjectDefinitions parse schema0 = Inr idx \<Longrightarrow> distinct (map fst idx)"
  unfolding findApiObjectDefinitions_def by (drule findLoop_distinct) simp_all

lemma findApiObjectDefinitions_entry:
  assumes "findApiObjectDefinitions parse schema0 = Inr idx" and "(k, defs) \<in> set idx"
  shows "defs = candidates parse (case definitions schema0 of None \<Rightarrow> [] | Some ds \<Rightarrow> ds) k
     \<and> defs \<noteq> []"
proof -
  have "map_of idx k = Some defs"
    using assms findApiObjectDefinitions_distinct by (metis map_of_is_SomeI)
  then show ?thesis
    using findApiObjectDefinitions_lookup [OF assms(1), of k]
    by (auto simp: Let_def split: if_splits)
qed

lemma findApiObjectDefinitions_keys:
  assumes "findApiObjectDefinitions parse schema0 = Inr idx"
  shows "fst ` set idx
     = set (acceptedBasenames parse (case definitions schema0 of None \<Rightarrow> [] | Some ds \<Rightarrow> ds))"
proof -
  have "k \<in> fst ` set idx \<longleftrightarrow>
      k \<in> set (acceptedBasenames parse (case definitions schema0 of None \<Rightarrow> [] | Some ds \<Rightarrow> ds))"
    for k
    using findApiObjectDefinitions_lookup [OF assms, of k] map_of_eq_None_iff [of idx k]
    by (auto simp: Let_def candidates_Nil_iff split: if_splits)
  then show ?thesis by blast
qed

subsection \<open>The selector on the example indexes\<close>

lemma ownEntries_examples:
  "ownEntries exampleIndex = exampleIndex"
  "ownEntries deploymentIndex = deploymentIndex"
  by (simp_all add: ownEntries_def exampleIndex_def deploymentIndex_def isArrayIndex_def isDigit_def)

lemma parseApiVersion_deployments:
  "parseApiVersion (version deployment_v1) = Some \<lparr> major = 1, level = Stable, subversion = 0 \<rparr>"
  "parseApiVersion (version deployment_v1beta1) = Some \<lparr> major = 1, level = Beta, subversion = 1 \<rparr>"
  "parseApiVersion (version pod_v1) = Some \<lparr> major = 1, level = Stable, subversion = 0 \<rparr>"
  by (simp_all add: deployment_v1_def deployment_v1beta1_def pod_v1_def parseApiVersion_examples)

lemma compareDefs_examples:
  "compareDefs deployment_v1 deployment_v1beta1 = 1"
  "compareDefs deployment_v1beta1 deployment_v1 = - 1"
  "compareDefs deployment_v1 deployment_v1 = 0"
  "compareDefs deployment_v1beta1 deployment_v1beta1 = 0"
  "compareDefs pod_v1 pod_v1 = 0"
  by (simp_all add: compareDefs_parsed [OF parseApiVersion_deployments(1) parseApiVersion_deployments(2)]
        compareDefs_parsed [OF parseApiVersion_deployments(2) parseApiVersion_deployments(1)]
        compareDefs_parsed [OF parseApiVersion_deployments(1) parseApiVersion_deployments(1)]
        compareDefs_parsed [OF parseApiVersion_deployments(2) parseApiVersion_deployments(2)]
        compareDefs_parsed [OF parseApiVersion_deployments(3) parseApiVersion_deployments(3)]
        compareVersions_def compareNumbers_def)

lemma sortWith_examples:
  "sortWith compareDefs [deployment_v1, deployment_v1beta1] = [deployment_v1beta1, deployment_v1]"
  "sortWith compareDefs [deployment_v1beta1, deployment_v1] = [deployment_v1beta1, deployment_v1]"
  "sortWith compareDefs [pod_v1] = [pod_v1]"
  by (simp_all add: compareDefs_examples)

lemma fullname_examples:
  "fullname deployment_v1 = ''apps.v1.Deployment''"
  "fullname deployment_v1beta1 = ''apps.v1beta1.Deployment''"
  "fullname pod_v1 = ''core.v1.Pod''"
  by (simp_all add: deployment_v1_def deployment_v1beta1_def pod_v1_def)

lemma deployments_distinct: "deployment_v1 \<noteq> deployment_v1beta1"
  by (simp add: deployment_v1_def deployment_v1beta1_def)

lemma consistent_examples:
  "consistentComparator compareDefs (set [deployment_v1, deployment_v1beta1])"
  "consistentComparator compareDefs (set [pod_v1])"
  by (rule compareDefs_consistent, simp add: parseApiVersion_deployments)+

lemma selectApiObjects_exampleIndex:
  "selectApiObjects compareDefs exampleIndex \<lparr> include_list = None \<rparr> =
     ([Some deployment_v1, Some pod_v1],
      [(''Deployment'', [deployment_v1beta1, deployment_v1]), (''Pod'', [pod_v1])])"
  by (simp add: selectApiObjects_def ownEntries_examples selectOne_def Let_def)
     (simp add: exampleIndex_def compareDefs_examples)

lemma selectApiObjects_deploymentIndex:
  "selectApiObjects compareDefs deploymentIndex \<lparr> include_list = None \<rparr> =
     ([Some deployment_v1], [(''Deployment'', [deployment_v1beta1, deployment_v1])])"
  "selectApiObjects compareDefs deploymentIndex \<lparr> include_list = Some [''apps.v1beta1.Deployment''] \<rparr> =
     ([Some deployment_v1beta1], [(''Deployment'', [deployment_v1beta1, deployment_v1])])"
  "selectApiObjects compareDefs deploymentIndex
      \<lparr> include_list = Some [''apps.v1.Deployment'', ''apps.v1beta1.Deployment''] \<rparr> =
     ([Some deployment_v1beta1], [(''Deployment'', [deployment_v1beta1, deployment_v1])])"
  "selectApiObjects compareDefs deploymentIndex \<lparr> include_list = Some [''apps.v1.Deployment''] \<rparr> =
     ([Some deployment_v1], [(''Deployment'', [deployment_v1beta1, deployment_v1])])"
  by (simp_all add: selectApiObjects_def ownEntries_examples selectOne_def Let_def)
     (simp_all add: deploymentIndex_def compareDefs_examples fullname_examples)

section \<open>The claims\<close>

text \<open>
  C5. The classifier \<open>tryGetObjectName\<close> returns a GVK exactly when the definition carries
  the vendor extension with at least one triple and declares a \<open>metadata\<close> property; what it
  returns is the first triple of the list. It returns nothing exactly when the extension is
  absent or empty, or \<open>properties\<close> is absent or has no \<open>metadata\<close>. A definition for which
  it returns nothing leaves no trace in the index: \<open>findApiObjectDefinitions\<close> yields the same
  result with and without it.
\<close>

theorem tryGetObjectName_classifier:
  "(tryGetObjectName d = Some g \<longleftrightarrow>
      (\<exists>gs props. x_kubernetes_group_version_kind d = Some (g # gs) \<and>
         properties d = Some props \<and> ''metadata'' \<in> fst ` set props)) \<and>
   (tryGetObjectName d = None \<longleftrightarrow>
      x_kubernetes_group_version_kind d = None \<or> x_kubernetes_group_version_kind d = Some [] \<or>
      properties d = None \<or>
      (\<exists>props. properties d = Some props \<and> ''metadata'' \<notin> fst ` set props)) \<and>
   (tryGetObjectName d = None \<longrightarrow>
      findApiObjectDefinitions parse (JSONSchema4 x p (Some (xs @ (n, d) # ys)))
        = findApiObjectDefinitions parse (JSONSchema4 x p (Some (xs @ ys))))"
proof -
  have "findApiObjectDefinitions parse (JSONSchema4 x p (Some (xs @ (n, d) # ys)))
        = findApiObjectDefinitions parse (JSONSchema4 x p (Some (xs @ ys)))"
    if "tryGetObjectName d = None"
    using that by (simp add: findApiObjectDefinitions_def findLoop_append split: sum.splits)
  then show ?thesis
    using tryGetObjectName_Some_iff [of d g] tryGetObjectName_None_iff [of d] by blast
qed

theorem tryGetObjectName_classifier_witness:
  "x_kubernetes_group_version_kind deleteOptionsSchema
      = Some [GroupVersionKind [] ''DeleteOptions'' ''v1''] \<and>
   properties deleteOptionsSchema = Some [(''gracePeriodSeconds'', emptySchema)] \<and>
   ''metadata'' \<notin> fst ` set [(''gracePeriodSeconds'', emptySchema)] \<and>
   tryGetObjectName deleteOptionsSchema = None \<and>
   findApiObjectDefinitions parseName
     (JSONSchema4 None None (Some ([] @ (''meta.v1.DeleteOptions'', deleteOptionsSchema) # [])))
     = Inr [] \<and>
   tryGetObjectName (apiObjectSchema [] ''Pod'' ''v1'') = Some (GroupVersionKind [] ''Pod'' ''v1'')"
  using tryGetObjectName_classifier [of deleteOptionsSchema "GroupVersionKind [] ''DeleteOptions'' ''v1''"
      parseName None None "[]" "''meta.v1.DeleteOptions''" "[]"]
    tryGetObjectName_classifier [of "apiObjectSchema [] ''Pod'' ''v1''" "GroupVersionKind [] ''Pod'' ''v1''"
      parseName None None "[]" "''core.v1.Pod''" "[]"]
  by (simp add: deleteOptionsSchema_def apiObjectSchema_def findApiObjectDefinitions_def)

text \<open>
  C8. When the classifier returns nothing for the schema of a definition (in particular when
  the schema lacks the vendor extension), \<open>getObjectName\<close> throws an \<open>Error\<close> whose message
  contains the \<open>fullname\<close> of the definition, and returns no value. In every other case it
  returns the first triple of the vendor extension.
\<close>

theorem getObjectName_throws:
  "(tryGetObjectName (schema apiDefinition) = None \<longrightarrow>
      getObjectName apiDefinition =
        Inl (Error (''cannot determine API object name for '' @ fullname apiDefinition @
          ''. schema must include a x-kubernetes-group-version-kind key''))) \<and>
   (x_kubernetes_group_version_kind (schema apiDefinition) = None \<longrightarrow>
      tryGetObjectName (schema apiDefinition) = None) \<and>
   (tryGetObjectName (schema apiDefinition) \<noteq> None \<longrightarrow>
      (\<exists>g gs. x_kubernetes_group_version_kind (schema apiDefinition) = Some (g # gs) \<and>
         getObjectName apiDefinition = Inr g))"
proof -
  have a: "getObjectName apiDefinition =
        Inl (Error (''cannot determine API object name for '' @ fullname apiDefinition @
          ''. schema must include a x-kubernetes-group-version-kind key''))"
    if "tryGetObjectName (schema apiDefinition) = None"
    using that by (simp add: getObjectName_def X_GROUP_VERSION_KIND_def)
  have b: "tryGetObjectName (schema apiDefinition) = None"
    if "x_kubernetes_group_version_kind (schema apiDefinition) = None"
    using that by (simp add: tryGetObjectName_def)
  have c: "\<exists>g gs. x_kubernetes_group_version_kind (schema apiDefinition) = Some (g # gs) \<and>
         getObjectName apiDefinition = Inr g"
    if "tryGetObjectName (schema apiDefinition) \<noteq> None"
  proof -
    from that obtain g where g: "tryGetObjectName (schema apiDefinition) = Some g" by auto
    then obtain gs where "x_kubernetes_group_version_kind (schema apiDefinition) = Some (g # gs)"
      unfolding tryGetObjectName_Some_iff by blast
    with g show ?thesis by (simp add: getObjectName_def)
  qed
  from a b c show ?thesis by blast
qed

theorem getObjectName_throws_witness:
  "x_kubernetes_group_version_kind (schema container_v1) = None \<and>
   tryGetObjectName (schema container_v1) = None \<and>
   getObjectName container_v1 =
     Inl (Error (''cannot determine API object name for core.v1.Container'' @
       ''. schema must include a x-kubernetes-group-version-kind key'')) \<and>
   tryGetObjectName (schema pod_v1) \<noteq> None \<and>
   getObjectName pod_v1 = Inr (GroupVersionKind [] ''Pod'' ''v1'')"
  using getObjectName_throws [of container_v1] getObjectName_throws [of pod_v1]
  by (simp add: container_v1_def containerSchema_def pod_v1_def tryGetObjectName_def
        apiObjectSchema_def)

text \<open>
  C10 (amended). \<open>ImportKubernetesApi.match\<close> returns no options when the source is neither
  \<open>k8s\<close> nor starts with \<open>k8s@\<close>; for the source \<open>k8s\<close> the \<open>apiVersion\<close> is the default
  \<open>1.15.0\<close>; for a source \<open>k8s@X\<close> the \<open>apiVersion\<close> is \<open>X\<close> up to its first \<open>@\<close>, which is
  \<open>X\<close> itself when \<open>X\<close> contains no \<open>@\<close>.
\<close>

theorem match_k8s:
  "(source \<noteq> ''k8s'' \<and> \<not> startsWith source ''k8s@'' \<longrightarrow> match source argv = None) \<and>
   map_option apiVersion (match ''k8s'' argv) = Some ''1.15.0'' \<and>
   map_option apiVersion (match (''k8s@'' @ X) argv) = Some (takeWhile (\<lambda>c. c \<noteq> CHR ''@'') X) \<and>
   (CHR ''@'' \<notin> set X \<longrightarrow> map_option apiVersion (match (''k8s@'' @ X) argv) = Some X)"
proof -
  have a: "source \<noteq> ''k8s'' \<and> \<not> startsWith source ''k8s@'' \<longrightarrow> match source argv = None"
    by (simp add: match_def)
  have b: "map_option apiVersion (match ''k8s'' argv) = Some ''1.15.0''"
    by (simp add: match_def startsWith_def at_index_def DEFAULT_API_VERSION_def)
  have s: "split CHR ''@'' (''k8s@'' @ X) = ''k8s'' # split CHR ''@'' X"
    using split_first [of "CHR ''@''" "''k8s''" X] by simp
  have c: "map_option apiVersion (match (''k8s@'' @ X) argv)
      = Some (takeWhile (\<lambda>c. c \<noteq> CHR ''@'') X)"
    unfolding match_def s
    by (subst split_takeWhile) (simp add: startsWith_def at_index_def)
  have d: "map_option apiVersion (match (''k8s@'' @ X) argv) = Some X" if "CHR ''@'' \<notin> set X"
  proof -
    from that have "takeWhile (\<lambda>c. c \<noteq> CHR ''@'') X = X"
      by (auto simp: takeWhile_eq_all_conv)
    with c show ?thesis by simp
  qed
  from a b c d show ?thesis by blast
qed

theorem match_k8s_witness:
  "''helm'' \<noteq> ''k8s'' \<and> \<not> startsWith ''helm'' ''k8s@'' \<and> match ''helm'' noArgv = None \<and>
   CHR ''@'' \<notin> set ''1.16.0'' \<and>
   map_option apiVersion (match ''k8s@1.16.0'' noArgv) = Some ''1.16.0''"
  using match_k8s [of "''helm''" noArgv "''1.16.0''"]
  by (simp add: startsWith_def)

text \<open>
  C10 as stated fails: the source \<open>k8s@1.16.0@rc\<close> is \<open>k8s@X\<close> for \<open>X = 1.16.0@rc\<close>, and
  \<open>source.split('@')[1]\<close> is \<open>1.16.0\<close>.
\<close>

theorem match_k8s_counterexample:
  "map_option apiVersion (match (''k8s@'' @ ''1.16.0@rc'') noArgv) = Some ''1.16.0'' \<and>
   ''1.16.0'' \<noteq> ''1.16.0@rc''"
  by (simp add: match_def startsWith_def at_index_def)

text \<open>
  C1. For every index that \<open>findApiObjectDefinitions\<close> returns, every comparator and every
  include list, the result of \<open>selectApiObjects\<close> has as many entries as the index has keys;
  in the order in which the keys are enumerated, the entry for a key is one of the
  candidates listed under that key, and its basename is the key. The keys are distinct, and
  so are the kinds of the result.
\<close>

theorem selectApiObjects_one_per_kind:
  assumes "findApiObjectDefinitions parse schema0 = Inr idx"
  shows "length (fst (selectApiObjects cmp idx options)) = length idx \<and>
         list_all2 (\<lambda>(k, defs) r. \<exists>d\<in>set defs. r = Some d \<and> basename d = k)
           (ownEntries idx) (fst (selectApiObjects cmp idx options)) \<and>
         map (map_option basename) (fst (selectApiObjects cmp idx options))
           = map (Some \<circ> fst) (ownEntries idx) \<and>
         distinct (map fst (ownEntries idx)) \<and>
         distinct (map (map_option basename) (fst (selectApiObjects cmp idx options)))"
proof -
  define incl where "incl = (case include_list options of None \<Rightarrow> [] | Some i \<Rightarrow> i)"
  define result where "result = fst (selectApiObjects cmp idx options)"
  have result: "result = map (\<lambda>(k, defs). selectOne cmp incl defs) (ownEntries idx)"
    unfolding result_def using includes_of [OF incl_def [symmetric]] .
  have entry: "\<exists>d\<in>set defs. selectOne cmp incl defs = Some d \<and> basename d = k"
    if "(k, defs) \<in> set (ownEntries idx)" for k defs
  proof -
    from that have mem: "(k, defs) \<in> set idx" by (simp add: set_ownEntries)
    note e = findApiObjectDefinitions_entry [OF assms mem]
    then obtain d where d: "selectOne cmp incl defs = Some d"
      using selectOne_defined by blast
    then have "d \<in> set defs" by (rule selectOne_member)
    moreover from this e have "basename d = k" using candidates_basename by metis
    ultimately show ?thesis using d by blast
  qed
  have all2: "list_all2 (\<lambda>(k, defs) r. \<exists>d\<in>set defs. r = Some d \<and> basename d = k)
      (ownEntries idx) result"
    unfolding result list_all2_map2
    by (rule list_all2_same [THEN iffD2]) (use entry in auto)
  have names: "map (map_option basename) result = map (Some \<circ> fst) (ownEntries idx)"
    unfolding result map_map
  proof (rule map_cong [OF refl])
    fix e assume mem: "e \<in> set (ownEntries idx)"
    obtain k defs where e: "e = (k, defs)" by (cases e)
    with mem have "(k, defs) \<in> set (ownEntries idx)" by simp
    with entry [of k defs] e
    show "(map_option basename \<circ> (\<lambda>(k, defs). selectOne cmp incl defs)) e = (Some \<circ> fst) e"
      by auto
  qed
  have dist: "distinct (map fst (ownEntries idx))"
    using findApiObjectDefinitions_distinct [OF assms] by (simp add: distinct_keys_ownEntries)
  then have "distinct (map Some (map fst (ownEntries idx)))"
    by (subst distinct_map) simp
  then have "distinct (map (map_option basename) result)"
    unfolding names by simp
  with all2 names dist show ?thesis
    unfolding result_def by (simp add: length_selectApiObjects)
qed

theorem selectApiObjects_one_per_kind_witness:
  "findApiObjectDefinitions parseName exampleDocument = Inr exampleIndex \<and>
   fst (selectApiObjects compareDefs exampleIndex \<lparr> include_list = None \<rparr>)
     = [Some deployment_v1, Some pod_v1] \<and>
   map fst (ownEntries exampleIndex) = [''Deployment'', ''Pod''] \<and>
   map (map_option basename) (fst (selectApiObjects compareDefs exampleIndex \<lparr> include_list = None \<rparr>))
     = [Some ''Deployment'', Some ''Pod'']"
  using selectApiObjects_one_per_kind [OF findApiObjectDefinitions_exampleDocument,
      of compareDefs "\<lparr> include_list = None \<rparr>"]
    findApiObjectDefinitions_exampleDocument
  by (simp add: selectApiObjects_exampleIndex ownEntries_examples)
     (simp add: exampleIndex_def)

text \<open>
  C2. For a kind none of whose candidates is named by the include list (so in particular
  when there is no include list) and whose candidate list is not empty, \<open>selectApiObjects\<close>
  selects the last element of the candidate list sorted with the comparator. For a
  comparator that is consistent on the candidates the sorted list is ascending and a
  permutation of the candidates, so the selection is a candidate that no candidate exceeds.
  With the comparator of the spec, the candidates \<open>apps.v1.Deployment\<close> and
  \<open>apps.v1beta1.Deployment\<close> and no include list give \<open>apps.v1.Deployment\<close>.
\<close>

theorem selectApiObjects_default_is_maximum:
  assumes "i < length (ownEntries m)" and "ownEntries m ! i = (k, defs)"
    and "\<forall>d\<in>set defs. fullname d \<notin> set (case include_list options of None \<Rightarrow> [] | Some l \<Rightarrow> l)"
    and "defs \<noteq> []" and "consistentComparator cmp (set defs)"
  shows "fst (selectApiObjects cmp m options) ! i = Some (last (sortWith cmp defs)) \<and>
         last (sortWith cmp defs) \<in> set defs \<and>
         (\<forall>d\<in>set defs. cmp d (last (sortWith cmp defs)) \<le> 0) \<and>
         sorted_wrt (\<lambda>a b. cmp a b \<le> 0) (sortWith cmp defs) \<and>
         mset (sortWith cmp defs) = mset defs"
proof -
  let ?sorted = "sortWith cmp defs"
  have sel: "fst (selectApiObjects cmp m options) ! i = Some (last ?sorted)"
    using selectApiObjects_nth [OF assms(1,2)] selectOne_no_include [OF assms(3)] assms(4)
    by simp
  have ne: "?sorted \<noteq> []" using assms(4) by (simp add: sortWith_Nil_iff)
  then have mem: "last ?sorted \<in> set defs"
    using last_in_set [OF ne] by (simp add: set_sortWith)
  have cons: "consistentComparator cmp (set ?sorted)"
    using assms(5) by (simp add: set_sortWith)
  have sorted: "sorted_wrt (\<lambda>a b. cmp a b \<le> 0) ?sorted"
    using assms(5) by (rule sorted_sortWith)
  have "cmp d (last ?sorted) \<le> 0" if "d \<in> set defs" for d
    using sorted_last_max [OF cons sorted, of d] that by (simp add: set_sortWith)
  with sel mem sorted show ?thesis by (simp add: mset_sortWith)
qed

theorem selectApiObjects_default_is_maximum_witness:
  "0 < length (ownEntries deploymentIndex) \<and>
   ownEntries deploymentIndex ! 0 = (''Deployment'', [deployment_v1, deployment_v1beta1]) \<and>
   fullname deployment_v1
     \<notin> set (case include_list \<lparr> include_list = None \<rparr> of None \<Rightarrow> [] | Some l \<Rightarrow> l) \<and>
   fullname deployment_v1beta1
     \<notin> set (case include_list \<lparr> include_list = None \<rparr> of None \<Rightarrow> [] | Some l \<Rightarrow> l) \<and>
   [deployment_v1, deployment_v1beta1] \<noteq> [] \<and>
   consistentComparator compareDefs (set [deployment_v1, deployment_v1beta1]) \<and>
   fst (selectApiObjects compareDefs deploymentIndex \<lparr> include_list = None \<rparr>) ! 0
     = Some deployment_v1 \<and>
   fullname deployment_v1 = ''apps.v1.Deployment'' \<and>
   compareDefs deployment_v1beta1 deployment_v1 \<le> 0"
proof -
  have h1: "0 < length (ownEntries deploymentIndex)"
    by (simp add: ownEntries_examples) (simp add: deploymentIndex_def)
  have h2: "ownEntries deploymentIndex ! 0 = (''Deployment'', [deployment_v1, deployment_v1beta1])"
    by (simp add: ownEntries_examples) (simp add: deploymentIndex_def)
  have h3: "\<forall>d\<in>set [deployment_v1, deployment_v1beta1].
      fullname d \<notin> set (case include_list \<lparr> include_list = None \<rparr> of None \<Rightarrow> [] | Some l \<Rightarrow> l)"
    by simp
  have h4: "[deployment_v1, deployment_v1beta1] \<noteq> []" by simp
  note h5 = consistent_examples(1)
  from selectApiObjects_default_is_maximum [OF h1 h2 h3 h4 h5] h1 h2 h3 h5
  show ?thesis
    by (simp add: compareDefs_examples fullname_examples)
qed

text \<open>
  C3. When the include list names candidates of a kind, the selection for the kind is the
  first candidate, in the order of the sorted candidate list, whose fullname is in the
  include list. So when exactly one candidate of the kind is named, the selection is that
  candidate, whatever the comparator says. The sorted candidate list is a permutation of the
  candidates; for a comparator that is consistent on them it is ascending and keeps
  candidates that compare equal in their order of discovery, so that the selection is a
  named candidate that exceeds no named candidate. With the comparator of the spec, the
  candidates \<open>apps.v1.Deployment\<close> and \<open>apps.v1beta1.Deployment\<close>, both named, give
  \<open>apps.v1beta1.Deployment\<close>.
\<close>

theorem selectApiObjects_include_override:
  assumes "i < length (ownEntries m)" and "ownEntries m ! i = (k, defs)"
    and "include_list options = Some incl"
  shows "(\<forall>d\<in>set defs. fullname d \<in> set incl \<and>
            (\<forall>d'\<in>set defs. fullname d' \<in> set incl \<longrightarrow> d' = d) \<longrightarrow>
            fst (selectApiObjects cmp m options) ! i = Some d) \<and>
         ((\<exists>d\<in>set defs. fullname d \<in> set incl) \<longrightarrow>
            (\<exists>j<length defs.
               fst (selectApiObjects cmp m options) ! i = Some (sortWith cmp defs ! j) \<and>
               fullname (sortWith cmp defs ! j) \<in> set incl \<and>
               (\<forall>j'<j. fullname (sortWith cmp defs ! j') \<notin> set incl) \<and>
               (consistentComparator cmp (set defs) \<longrightarrow>
                  (\<forall>d\<in>set defs. fullname d \<in> set incl \<longrightarrow> cmp (sortWith cmp defs ! j) d \<le> 0)))) \<and>
         mset (sortWith cmp defs) = mset defs \<and>
         (consistentComparator cmp (set defs) \<longrightarrow>
            sorted_wrt (\<lambda>a b. cmp a b \<le> 0) (sortWith cmp defs) \<and>
            (\<forall>a\<in>set defs. filter (\<lambda>y. cmp y a = 0) (sortWith cmp defs)
                              = filter (\<lambda>y. cmp y a = 0) defs))"
proof -
  let ?sel = "fst (selectApiObjects cmp m options) ! i"
  let ?sorted = "sortWith cmp defs"
  have sel: "?sel = selectOne cmp incl defs"
    using selectApiObjects_nth [OF assms(1,2)] assms(3) by simp
  have first: "\<exists>j<length defs. ?sel = Some (?sorted ! j) \<and>
      fullname (?sorted ! j) \<in> set incl \<and>
      (\<forall>j'<j. fullname (?sorted ! j') \<notin> set incl)"
    if ex: "\<exists>d\<in>set defs. fullname d \<in> set incl"
  proof -
    from ex obtain x where
      x: "find (\<lambda>x. fullname x \<in> set incl) ?sorted = Some x"
      using selectOne_include [OF ex, of cmp] selectOne_defined [of defs cmp incl] by fastforce
    then obtain j where "j < length ?sorted"
      and "fullname (?sorted ! j) \<in> set incl" and "x = ?sorted ! j"
      and "\<forall>j'<j. fullname (?sorted ! j') \<notin> set incl"
      unfolding find_Some_iff by blast
    moreover have "?sel = Some x"
      using sel selectOne_include [OF ex, of cmp] x by simp
    ultimately show ?thesis by (auto simp: length_sortWith)
  qed
  have least: "cmp (?sorted ! j) d \<le> 0"
    if cons: "consistentComparator cmp (set defs)" and j: "j < length defs"
      and before: "\<forall>j'<j. fullname (?sorted ! j') \<notin> set incl"
      and d: "d \<in> set defs" "fullname d \<in> set incl" for j d
  proof -
    from d(1) have "d \<in> set ?sorted" by (simp add: set_sortWith)
    then obtain n where n: "n < length ?sorted" and dn: "?sorted ! n = d"
      by (auto simp: in_set_conv_nth)
    with before d(2) have "\<not> n < j" by auto
    then consider "n = j" | "j < n" by linarith
    then show ?thesis
    proof cases
      case 1
      with dn show ?thesis using consistent_refl [OF cons d(1)] by simp
    next
      case 2
      have "sorted_wrt (\<lambda>a b. cmp a b \<le> 0) ?sorted" using cons by (rule sorted_sortWith)
      from sorted_wrt_nth_less [OF this 2 n] dn show ?thesis by simp
    qed
  qed
  have named: "\<exists>j<length defs. ?sel = Some (?sorted ! j) \<and>
      fullname (?sorted ! j) \<in> set incl \<and>
      (\<forall>j'<j. fullname (?sorted ! j') \<notin> set incl) \<and>
      (consistentComparator cmp (set defs) \<longrightarrow>
         (\<forall>d\<in>set defs. fullname d \<in> set incl \<longrightarrow> cmp (?sorted ! j) d \<le> 0))"
    if ex: "\<exists>d\<in>set defs. fullname d \<in> set incl"
  proof -
    from first [OF ex] obtain j where j: "j < length defs"
      and s: "?sel = Some (?sorted ! j)" and f: "fullname (?sorted ! j) \<in> set incl"
      and b: "\<forall>j'<j. fullname (?sorted ! j') \<notin> set incl" by blast
    have "\<forall>d\<in>set defs. fullname d \<in> set incl \<longrightarrow> cmp (?sorted ! j) d \<le> 0"
      if "consistentComparator cmp (set defs)"
      using least [OF that j b] by blast
    with j s f b show ?thesis by blast
  qed
  have only: "?sel = Some d"
    if d: "d \<in> set defs" "fullname d \<in> set incl"
      and u: "\<forall>d'\<in>set defs. fullname d' \<in> set incl \<longrightarrow> d' = d" for d
  proof -
    from d have "\<exists>d\<in>set defs. fullname d \<in> set incl" by blast
    from first [OF this] obtain j where j: "j < length defs"
      and s: "?sel = Some (?sorted ! j)"
      and f: "fullname (?sorted ! j) \<in> set incl" by blast
    from j have "?sorted ! j \<in> set ?sorted"
      by (simp add: length_sortWith)
    then have "?sorted ! j \<in> set defs" by (simp add: set_sortWith)
    with u f have "?sorted ! j = d" by blast
    with s show ?thesis by simp
  qed
  have perm: "mset ?sorted = mset defs" by (rule mset_sortWith)
  have ordered: "sorted_wrt (\<lambda>a b. cmp a b \<le> 0) ?sorted \<and>
      (\<forall>a\<in>set defs. filter (\<lambda>y. cmp y a = 0) ?sorted = filter (\<lambda>y. cmp y a = 0) defs)"
    if "consistentComparator cmp (set defs)"
    using sorted_sortWith [OF that] filter_sortWith [OF that] by blast
  from named only perm ordered show ?thesis by blast
qed

theorem selectApiObjects_include_override_witness:
  "0 < length (ownEntries deploymentIndex) \<and>
   ownEntries deploymentIndex ! 0 = (''Deployment'', [deployment_v1, deployment_v1beta1]) \<and>
   consistentComparator compareDefs (set [deployment_v1, deployment_v1beta1]) \<and>
   deployment_v1 \<noteq> deployment_v1beta1 \<and>
   fullname deployment_v1beta1 \<in> set [''apps.v1beta1.Deployment''] \<and>
   fullname deployment_v1 \<notin> set [''apps.v1beta1.Deployment''] \<and>
   fst (selectApiObjects compareDefs deploymentIndex
          \<lparr> include_list = Some [''apps.v1beta1.Deployment''] \<rparr>) ! 0 = Some deployment_v1beta1 \<and>
   fullname deployment_v1 \<in> set [''apps.v1.Deployment'', ''apps.v1beta1.Deployment''] \<and>
   fullname deployment_v1beta1 \<in> set [''apps.v1.Deployment'', ''apps.v1beta1.Deployment''] \<and>
   sortWith compareDefs [deployment_v1, deployment_v1beta1] = [deployment_v1beta1, deployment_v1] \<and>
   compareDefs deployment_v1beta1 deployment_v1 = - 1 \<and>
   fst (selectApiObjects compareDefs deploymentIndex
          \<lparr> include_list = Some [''apps.v1.Deployment'', ''apps.v1beta1.Deployment''] \<rparr>) ! 0
     = Some deployment_v1beta1"
proof -
  have h1: "0 < length (ownEntries deploymentIndex)"
    by (simp add: ownEntries_examples) (simp add: deploymentIndex_def)
  have h2: "ownEntries deploymentIndex ! 0 = (''Deployment'', [deployment_v1, deployment_v1beta1])"
    by (simp add: ownEntries_examples) (simp add: deploymentIndex_def)
  have h3: "include_list \<lparr> include_list = Some [''apps.v1beta1.Deployment''] \<rparr>
      = Some [''apps.v1beta1.Deployment'']" by simp
  have h4: "include_list \<lparr> include_list = Some [''apps.v1.Deployment'', ''apps.v1beta1.Deployment''] \<rparr>
      = Some [''apps.v1.Deployment'', ''apps.v1beta1.Deployment'']" by simp
  from selectApiObjects_include_override [OF h1 h2 h3, of compareDefs]
    selectApiObjects_include_override [OF h1 h2 h4, of compareDefs] h1 h2
    consistent_examples(1) deployments_distinct
  show ?thesis
    by (simp add: fullname_examples compareDefs_examples selectApiObjects_deploymentIndex)
qed

text \<open>
  C7. \<open>selectApiObjects\<close> sorts the candidate arrays of the index in place. For a comparator
  that is consistent on every candidate list, a second call on the index as the first call
  left it, with the same include list, returns the same selections and leaves the index as
  it is.
\<close>

theorem selectApiObjects_twice:
  assumes "\<forall>(k, defs)\<in>set m. consistentComparator cmp (set defs)"
  shows "selectApiObjects cmp (snd (selectApiObjects cmp m options)) options
           = selectApiObjects cmp m options"
proof -
  define incl where "incl = (case include_list options of None \<Rightarrow> [] | Some i \<Rightarrow> i)"
  let ?sorted = "map (\<lambda>(k, defs). (k, sortWith cmp defs)) m"
  have snd1: "snd (selectApiObjects cmp m options) = ?sorted"
    by (simp add: selectApiObjects_def Let_def)
  have own: "ownEntries ?sorted = map (\<lambda>(k, defs). (k, sortWith cmp defs)) (ownEntries m)"
    by (rule ownEntries_map_values)
  have fst2: "map (\<lambda>(k, defs). selectOne cmp incl defs) (ownEntries ?sorted)
      = map (\<lambda>(k, defs). selectOne cmp incl defs) (ownEntries m)"
    unfolding own map_map
  proof (rule map_cong [OF refl])
    fix e assume "e \<in> set (ownEntries m)"
    then have mem: "e \<in> set m" by (simp add: set_ownEntries)
    obtain k defs where e: "e = (k, defs)" by (cases e)
    with mem assms have "consistentComparator cmp (set defs)" by blast
    then show "((\<lambda>(k, defs). selectOne cmp incl defs) \<circ> (\<lambda>(k, defs). (k, sortWith cmp defs))) e
        = (\<lambda>(k, defs). selectOne cmp incl defs) e"
      using e by (simp add: selectOne_sorted)
  qed
  have snd2: "map (\<lambda>(k, defs). (k, sortWith cmp defs)) ?sorted = ?sorted"
    unfolding map_map
  proof (rule map_cong [OF refl])
    fix e assume mem: "e \<in> set m"
    obtain k defs where e: "e = (k, defs)" by (cases e)
    with mem assms have "consistentComparator cmp (set defs)" by blast
    then show "((\<lambda>(k, defs). (k, sortWith cmp defs)) \<circ> (\<lambda>(k, defs). (k, sortWith cmp defs))) e
        = (\<lambda>(k, defs). (k, sortWith cmp defs)) e"
      using e by (simp add: sortWith_idem)
  qed
  have first: "selectApiObjects cmp m options
      = (map (\<lambda>(k, defs). selectOne cmp incl defs) (ownEntries m), ?sorted)"
    unfolding selectApiObjects_def Let_def incl_def by (rule refl)
  have second: "selectApiObjects cmp ?sorted options
      = (map (\<lambda>(k, defs). selectOne cmp incl defs) (ownEntries ?sorted),
         map (\<lambda>(k, defs). (k, sortWith cmp defs)) ?sorted)"
    unfolding selectApiObjects_def Let_def incl_def by (rule refl)
  have "selectApiObjects cmp (snd (selectApiObjects cmp m options)) options
      = selectApiObjects cmp ?sorted options"
    by (simp only: snd1)
  also have "\<dots> = (map (\<lambda>(k, defs). selectOne cmp incl defs) (ownEntries ?sorted),
         map (\<lambda>(k, defs). (k, sortWith cmp defs)) ?sorted)"
    by (rule second)
  also have "\<dots> = (map (\<lambda>(k, defs). selectOne cmp incl defs) (ownEntries m), ?sorted)"
    by (simp only: fst2 snd2)
  also have "\<dots> = selectApiObjects cmp m options"
    by (rule first [symmetric])
  finally show ?thesis .
qed

theorem selectApiObjects_twice_witness:
  "exampleIndex = [(''Deployment'', [deployment_v1, deployment_v1beta1]), (''Pod'', [pod_v1])] \<and>
   consistentComparator compareDefs (set [deployment_v1, deployment_v1beta1]) \<and>
   consistentComparator compareDefs (set [pod_v1]) \<and>
   selectApiObjects compareDefs exampleIndex \<lparr> include_list = None \<rparr>
     = ([Some deployment_v1, Some pod_v1],
        [(''Deployment'', [deployment_v1beta1, deployment_v1]), (''Pod'', [pod_v1])]) \<and>
   selectApiObjects compareDefs
       [(''Deployment'', [deployment_v1beta1, deployment_v1]), (''Pod'', [pod_v1])]
       \<lparr> include_list = None \<rparr>
     = ([Some deployment_v1, Some pod_v1],
        [(''Deployment'', [deployment_v1beta1, deployment_v1]), (''Pod'', [pod_v1])])"
proof -
  have h: "\<forall>(k, defs)\<in>set exampleIndex. consistentComparator compareDefs (set defs)"
    using consistent_examples by (simp add: exampleIndex_def)
  from selectApiObjects_twice [OF h, of "\<lparr> include_list = None \<rparr>"] consistent_examples
  show ?thesis by (simp add: selectApiObjects_exampleIndex) (simp add: exampleIndex_def)
qed

text \<open>
  C9. In an index that \<open>findApiObjectDefinitions\<close> returns no candidate list is empty, and a
  key is present exactly when some accepted definition has that basename. Hence
  \<open>selectApiObjects\<close> never pushes \<open>undefined\<close> for such an index. On the index without keys it
  returns the empty selection.
\<close>

theorem findApiObjectDefinitions_lists_nonempty:
  assumes "findApiObjectDefinitions parse schema0 = Inr idx"
  shows "(\<forall>(k, defs)\<in>set idx. defs \<noteq> []) \<and>
         (k \<in> fst ` set idx \<longleftrightarrow>
            (\<exists>(n, d)\<in>set (case definitions schema0 of None \<Rightarrow> [] | Some ds \<Rightarrow> ds).
               tryGetObjectName d \<noteq> None \<and> basename (parse n) = k)) \<and>
         None \<notin> set (fst (selectApiObjects cmp idx options)) \<and>
         selectApiObjects cmp [] options = ([], [])"
proof -
  have ne: "\<forall>(k, defs)\<in>set idx. defs \<noteq> []"
    using findApiObjectDefinitions_entry [OF assms] by blast
  have keys: "k \<in> fst ` set idx \<longleftrightarrow>
      (\<exists>(n, d)\<in>set (case definitions schema0 of None \<Rightarrow> [] | Some ds \<Rightarrow> ds).
         tryGetObjectName d \<noteq> None \<and> basename (parse n) = k)"
    unfolding findApiObjectDefinitions_keys [OF assms]
    by (auto simp: acceptedBasenames_def accepted_def)
  have "r \<noteq> None" if "r \<in> set (fst (selectApiObjects cmp idx options))" for r
  proof -
    from that obtain k defs where "(k, defs) \<in> set (ownEntries idx)"
      and r: "r = selectOne cmp (case include_list options of None \<Rightarrow> [] | Some i \<Rightarrow> i) defs"
      by (auto simp: selectApiObjects_def Let_def)
    then have "defs \<noteq> []" using ne by (auto simp: set_ownEntries)
    then show ?thesis unfolding r using selectOne_defined by fastforce
  qed
  then have defined: "None \<notin> set (fst (selectApiObjects cmp idx options))" by blast
  have "selectApiObjects cmp [] options = ([], [])"
    by (simp add: selectApiObjects_def ownEntries_def)
  with ne keys defined show ?thesis by blast
qed

theorem findApiObjectDefinitions_lists_nonempty_witness:
  "findApiObjectDefinitions parseName exampleDocument = Inr exampleIndex \<and>
   map snd exampleIndex = [[deployment_v1, deployment_v1beta1], [pod_v1]] \<and>
   ''Pod'' \<in> fst ` set exampleIndex \<and>
   ''DeleteOptions'' \<notin> fst ` set exampleIndex \<and>
   None \<notin> set (fst (selectApiObjects compareDefs exampleIndex \<lparr> include_list = None \<rparr>))"
  using findApiObjectDefinitions_lists_nonempty [OF findApiObjectDefinitions_exampleDocument,
      of "''Pod''" compareDefs "\<lparr> include_list = None \<rparr>"]
    findApiObjectDefinitions_exampleDocument
  by (simp add: selectApiObjects_exampleIndex) (simp add: exampleIndex_def)

text \<open>
  C4. The comparator of the spec, on version strings that match the version pattern: its
  result is one of -1, 0, 1; it is negative exactly when the left version is below the right
  one in the order by the numeral after \<open>v\<close>, then by stability (alpha below beta below GA),
  then by the trailing numeral (0 when missing), and zero exactly when the three agree. For
  every pair, swapping the arguments negates the result, and \<open>\<le>\<close> is transitive. In
  particular \<open>v2 > v1beta1 > v1alpha3 > v1alpha1\<close>.
\<close>

theorem compareApiVersions_total_order:
  fixes a b c :: "'a ApiObjectName_scheme"
  shows "compareApiVersions b a = map_option uminus (compareApiVersions a b) \<and>
   (parseApiVersion (version a) = Some va \<and> parseApiVersion (version b) = Some vb \<longrightarrow>
      (\<exists>r\<in>{- 1, 0, 1}. compareApiVersions a b = Some r \<and>
         (r < 0 \<longleftrightarrow>
            major va < major vb \<or>
            (major va = major vb \<and>
               (stabilityRank (level va) < stabilityRank (level vb) \<or>
                (level va = level vb \<and> subversion va < subversion vb)))) \<and>
         (r = 0 \<longleftrightarrow> major va = major vb \<and> level va = level vb \<and> subversion va = subversion vb))) \<and>
   (compareApiVersions a b = Some x \<and> x \<le> 0 \<and> compareApiVersions b c = Some y \<and> y \<le> 0 \<longrightarrow>
      (\<exists>z. compareApiVersions a c = Some z \<and> z \<le> 0)) \<and>
   stabilityRank Alpha < stabilityRank Beta \<and> stabilityRank Beta < stabilityRank Stable \<and>
   parseApiVersion ''v1'' = Some \<lparr> major = 1, level = Stable, subversion = 0 \<rparr> \<and>
   compareApiVersions (a\<lparr>version := ''v2''\<rparr>) (b\<lparr>version := ''v1beta1''\<rparr>) = Some 1 \<and>
   compareApiVersions (a\<lparr>version := ''v1beta1''\<rparr>) (b\<lparr>version := ''v1alpha3''\<rparr>) = Some 1 \<and>
   compareApiVersions (a\<lparr>version := ''v1alpha3''\<rparr>) (b\<lparr>version := ''v1alpha1''\<rparr>) = Some 1"
proof -
  have flip: "compareApiVersions b a = map_option uminus (compareApiVersions a b)"
    by (rule compareApiVersions_flip)
  have rule: "\<exists>r\<in>{- 1, 0, 1}. compareApiVersions a b = Some r \<and>
         (r < 0 \<longleftrightarrow>
            major va < major vb \<or>
            (major va = major vb \<and>
               (stabilityRank (level va) < stabilityRank (level vb) \<or>
                (level va = level vb \<and> subversion va < subversion vb)))) \<and>
         (r = 0 \<longleftrightarrow> major va = major vb \<and> level va = level vb \<and> subversion va = subversion vb)"
    if "parseApiVersion (version a) = Some va" "parseApiVersion (version b) = Some vb"
  proof (intro bexI conjI)
    show "compareApiVersions a b = Some (compareVersions va vb)"
      using that by (rule compareApiVersions_Some)
    show "compareVersions va vb \<in> {- 1, 0, 1}" by (rule compareVersions_range)
  qed (rule compareVersions_less compareVersions_eq_0)+
  have trans: "\<exists>z. compareApiVersions a c = Some z \<and> z \<le> 0"
    if "compareApiVersions a b = Some x" "x \<le> 0" "compareApiVersions b c = Some y" "y \<le> 0"
  proof -
    from that(1) obtain l m where l: "parseApiVersion (version a) = Some l"
      and m: "parseApiVersion (version b) = Some m" and x: "x = compareVersions l m"
      unfolding compareApiVersions_Some_iff by blast
    from that(3) m obtain r where r: "parseApiVersion (version c) = Some r"
      and y: "y = compareVersions m r"
      unfolding compareApiVersions_Some_iff by auto
    have "compareVersions l r \<le> 0"
      using compareVersions_trans [of l m r] that(2,4) x y by simp
    then show ?thesis using compareApiVersions_Some [OF l r] by simp
  qed
  have ex1: "compareApiVersions (a\<lparr>version := ''v2''\<rparr>) (b\<lparr>version := ''v1beta1''\<rparr>) = Some 1"
    by (simp add: compareApiVersions_def parseApiVersion_examples
        compareVersions_def compareNumbers_def)
  have ex2: "compareApiVersions (a\<lparr>version := ''v1beta1''\<rparr>) (b\<lparr>version := ''v1alpha3''\<rparr>) = Some 1"
    by (simp add: compareApiVersions_def parseApiVersion_examples
        compareVersions_def compareNumbers_def)
  have ex3: "compareApiVersions (a\<lparr>version := ''v1alpha3''\<rparr>) (b\<lparr>version := ''v1alpha1''\<rparr>) = Some 1"
    by (simp add: compareApiVersions_def parseApiVersion_examples
        compareVersions_def compareNumbers_def)
  have ranks: "stabilityRank Alpha < stabilityRank Beta \<and> stabilityRank Beta < stabilityRank Stable"
    by simp
  from flip rule trans ranks parseApiVersion_examples(1) ex1 ex2 ex3 show ?thesis
    by (intro conjI impI) blast+
qed

theorem compareApiVersions_total_order_witness:
  "parseApiVersion (version deployment_v1beta1) = Some \<lparr> major = 1, level = Beta, subversion = 1 \<rparr> \<and>
   parseApiVersion (version deployment_v1) = Some \<lparr> major = 1, level = Stable, subversion = 0 \<rparr> \<and>
   compareApiVersions deployment_v1beta1 deployment_v1 = Some (- 1) \<and>
   compareApiVersions deployment_v1 deployment_v1beta1 = Some 1 \<and>
   compareApiVersions deployment_v1 pod_v1 = Some 0 \<and>
   compareApiVersions deployment_v1beta1 pod_v1 = Some (- 1)"
  using compareApiVersions_total_order [where a = deployment_v1beta1 and b = deployment_v1
      and c = pod_v1 and va = "\<lparr> major = 1, level = Beta, subversion = 1 \<rparr>"
      and vb = "\<lparr> major = 1, level = Stable, subversion = 0 \<rparr>" and x = "- 1" and y = 0]
  by (simp add: parseApiVersion_deployments compareApiVersions_def compareVersions_def
        compareNumbers_def)

text \<open>
  C6. \<open>findApiObjectDefinitions\<close> does not return an index for every definitions map: the
  map of the index is an object literal, so for an accepted definition whose basename is a
  property name of \<open>Object.prototype\<close> the read \<open>map[type.basename]\<close> yields the inherited
  value instead of \<open>undefined\<close>, and \<open>list.push\<close> throws a \<open>TypeError\<close>. Here: one API object
  named \<open>io.k8s.api.core.v1.constructor\<close>.
\<close>

theorem findApiObjectDefinitions_inherited_key:
  "tryGetObjectName (apiObjectSchema [] ''constructor'' ''v1'')
     = Some (GroupVersionKind [] ''constructor'' ''v1'') \<and>
   basename (parseName ''io.k8s.api.core.v1.constructor'') = ''constructor'' \<and>
   findApiObjectDefinitions parseName prototypeDocument
     = Inl (TypeError ''list.push is not a function'')"
  by (simp add: tryGetObjectName_examples parseName_examples
        findApiObjectDefinitions_prototypeDocument)

end
